theory Spec2Isabelle
  imports Complex_Main "HOL-Library.Char_ord" "HOL-Library.List_Lexorder"
begin

section \<open>Atoms\<close>

text \<open>
  An \<open>AtomNode\<close> object is identified by its reference (Python compares atoms with
  \<open>is\<close>, and \<open>AtomNode\<close> defines no \<open>__eq__\<close>, so \<open>==\<close> is identity as well).
  A reference is a natural number; the fields of the object are read through an atom store.
  \<open>bonds\<close> is a Python set of \<open>(atom, bond_type)\<close> tuples; it is kept as the list of its
  elements in iteration order.  Charges are Python floats, idealised here as reals.
\<close>

type_synonym atom = nat

record AtomNode =
  name :: string
  atype :: string
  element :: string
  charge :: real
  bonds :: "(atom \<times> string) list"
  use_general_type :: bool

type_synonym atoms = "atom \<Rightarrow> AtomNode"

datatype error =
    AssertionError
  | ValueError
  | KeyError
  | TypeError
  | IndexError
  | AttributeError
  | NotImplementedError
  | Exception string

text \<open>
  \<open>np.isclose(a, b, atol=atol)\<close> with numpy's defaults \<open>rtol = 1e-05\<close> and
  \<open>equal_nan = False\<close>, on finite values: \<open>|a - b| <= atol + rtol * |b|\<close>, or \<open>a == b\<close>.
  The second test decides only when the tolerance is negative.
\<close>

definition isclose :: "real \<Rightarrow> real \<Rightarrow> real \<Rightarrow> bool" where
  "isclose a b atol \<longleftrightarrow> \<bar>a - b\<bar> \<le> atol + (1 / 100000) * \<bar>b\<bar> \<or> a = b"

text \<open>\<open>AtomNode.eq\<close>: same type and close charges.\<close>

definition eq :: "AtomNode \<Rightarrow> AtomNode \<Rightarrow> real \<Rightarrow> bool" where
  "eq self other atol \<longleftrightarrow> atype self = atype other \<and> isclose (charge self) (charge other) atol"

definition same_element :: "AtomNode \<Rightarrow> AtomNode \<Rightarrow> bool" where
  "same_element self other =
     (if use_general_type self then element self = element other
      else atype self = atype other)"

definition same_type :: "AtomNode \<Rightarrow> AtomNode \<Rightarrow> bool" where
  "same_type self other \<longleftrightarrow> atype self = atype other"

section \<open>The superimposed topology\<close>

type_synonym pair = "atom \<times> atom"
type_synonym bond_types = "string option \<times> string option"
type_synonym st_ref = nat

datatype log_entry = Added pair | Removed pair | MergedWith "pair list"

text \<open>
  The fields of \<open>SuperimposedTopology\<close>.  \<open>matched_pairs_bonds\<close> is a dict from a pair to
  a set of \<open>(pair, bond_types)\<close> tuples, each set kept as a duplicate-free list.
  \<open>mirrors\<close> and \<open>alternative_mappings\<close> hold references to other topologies.
  \<open>top1\<close>, \<open>top2\<close> and the two lists of non-overlapping cycles exist only when the
  constructor was given both topologies (\<open>None\<close> stands for the missing attribute);
  \<open>left_coords_are_ref\<close> is an attribute that the search sets after construction.
\<close>

record ST =
  matched_pairs :: "pair list"
  nodes :: "atom set"
  nodes_added_log :: "log_entry list"
  matched_pairs_bonds :: "pair \<rightharpoonup> (pair \<times> bond_types) list"
  mirrors :: "st_ref list"
  alternative_mappings :: "st_ref list"
  removed_pairs_with_charge_difference :: "(pair \<times> real) list"
  removed_because_disjointed_cc :: "pair list"
  removed_due_to_net_charge :: "(pair \<times> real) list"
  removed_because_unmatched_rings :: "pair list"
  removed_because_diff_bonds :: "(pair \<times> pair) list"
  top1 :: "atom list option"
  top2 :: "atom list option"
  nonoverlapping_l_cycles :: "atom list list option"
  nonoverlapping_r_cycles :: "atom list list option"
  ignore_bond_types :: bool
  internal_ids :: "((atom + pair) \<rightharpoonup> nat) option"
  unique_atom_count :: nat
  left_coords_are_ref :: "bool option"

text \<open>
  A method mutates the topology in place and may raise part-way, so its model returns the
  result (or the error) together with the state the object is left in.
\<close>

type_synonym 'a outcome = "(error + 'a) \<times> ST"

text \<open>
  The constructor.  The cycle lists are computed from the two topologies by
  \<open>networkx.cycle_basis\<close>, which is outside this development, so they are arguments.
\<close>

definition SuperimposedTopology ::
  "atom list option \<Rightarrow> atom list option \<Rightarrow> atom list list option \<Rightarrow> atom list list option \<Rightarrow> ST" where
  "SuperimposedTopology t1 t2 lc rc =
     \<lparr>matched_pairs = [], nodes = {}, nodes_added_log = [], matched_pairs_bonds = Map.empty,
      mirrors = [], alternative_mappings = [],
      removed_pairs_with_charge_difference = [], removed_because_disjointed_cc = [],
      removed_due_to_net_charge = [], removed_because_unmatched_rings = [],
      removed_because_diff_bonds = [],
      top1 = t1, top2 = t2,
      nonoverlapping_l_cycles = (if t1 \<noteq> None \<and> t2 \<noteq> None then lc else None),
      nonoverlapping_r_cycles = (if t1 \<noteq> None \<and> t2 \<noteq> None then rc else None),
      ignore_bond_types = True, internal_ids = None, unique_atom_count = 0,
      left_coords_are_ref = None\<rparr>"

definition contains_node :: "ST \<Rightarrow> atom \<Rightarrow> bool" where
  "contains_node st node \<longleftrightarrow> node \<in> nodes st"

definition contains_any_node :: "ST \<Rightarrow> atom list \<Rightarrow> bool" where
  "contains_any_node st node_list \<longleftrightarrow> nodes st \<inter> set node_list \<noteq> {}"

definition contains_pair :: "ST \<Rightarrow> pair \<Rightarrow> bool" where
  "contains_pair st node_pair \<longleftrightarrow> node_pair \<in> set (matched_pairs st)"

text \<open>\<open>len(st)\<close> is the number of matched pairs.\<close>

definition len_st :: "ST \<Rightarrow> nat" where
  "len_st st = length (matched_pairs st)"

text \<open>\<open>list.sort(key=lambda pair: pair[0].name)\<close>: a stable sort on the left atom's name.\<close>

definition sort_by_left_name :: "atoms \<Rightarrow> pair list \<Rightarrow> pair list" where
  "sort_by_left_name h ps = sort_key (\<lambda>p. name (h (fst p))) ps"

definition add_node_pair :: "atoms \<Rightarrow> pair \<Rightarrow> ST \<Rightarrow> unit outcome" where
  "add_node_pair h node_pair st =
     (if node_pair \<in> set (matched_pairs st) then (Inl AssertionError, st)
      else
        let st1 = st\<lparr>matched_pairs := sort_by_left_name h (matched_pairs st @ [node_pair])\<rparr> in
        if fst node_pair \<in> nodes st1 \<or> snd node_pair \<in> nodes st1 then (Inl AssertionError, st1)
        else
          let st2 = st1\<lparr>nodes := insert (snd node_pair) (insert (fst node_pair) (nodes st1))\<rparr> in
          if length (matched_pairs st2) * 2 \<noteq> card (nodes st2) then (Inl AssertionError, st2)
          else (Inr (),
                st2\<lparr>nodes_added_log := nodes_added_log st2 @ [Added node_pair],
                    matched_pairs_bonds := (matched_pairs_bonds st2)(node_pair \<mapsto> [])\<rparr>))"

text \<open>\<open>set.add\<close> on a set kept as a list.\<close>

definition set_add :: "'a \<Rightarrow> 'a list \<Rightarrow> 'a list" where
  "set_add x xs = (if x \<in> set xs then xs else xs @ [x])"

text \<open>
  The loop of \<open>remove_node_pair\<close> that detaches the removed pair from every pair bound to
  it; \<open>dict[k]\<close> and \<open>set.remove\<close> raise \<open>KeyError\<close> on a missing key or element.
\<close>

fun detach :: "pair \<Rightarrow> (pair \<times> bond_types) list \<Rightarrow> ST \<Rightarrow> unit outcome" where
  "detach node_pair [] st = (Inr (), st)"
| "detach node_pair ((bound_pair, bond_type) # rest) st =
     (case matched_pairs_bonds st bound_pair of
        None \<Rightarrow> (Inl KeyError, st)
      | Some bound_pair_bonds \<Rightarrow>
          if (node_pair, bond_type) \<notin> set bound_pair_bonds then (Inl KeyError, st)
          else detach node_pair rest
                 (st\<lparr>matched_pairs_bonds :=
                       (matched_pairs_bonds st)(bound_pair \<mapsto> remove1 (node_pair, bond_type) bound_pair_bonds)\<rparr>))"

definition remove_node_pair :: "pair \<Rightarrow> ST \<Rightarrow> unit outcome" where
  "remove_node_pair node_pair st =
     (if node_pair \<notin> set (matched_pairs st) then (Inl ValueError, st)
      else
        let st1 = st\<lparr>matched_pairs := remove1 node_pair (matched_pairs st)\<rparr> in
        if fst node_pair \<notin> nodes st1 then (Inl KeyError, st1)
        else
          let st2 = st1\<lparr>nodes := nodes st1 - {fst node_pair}\<rparr> in
          if snd node_pair \<notin> nodes st2 then (Inl KeyError, st2)
          else
            let st3 = st2\<lparr>nodes := nodes st2 - {snd node_pair},
                          nodes_added_log := nodes_added_log st2 @ [Removed node_pair]\<rparr> in
            case matched_pairs_bonds st3 node_pair of
              None \<Rightarrow> (Inl KeyError, st3)
            | Some bound_pairs \<Rightarrow>
                detach node_pair bound_pairs
                  (st3\<lparr>matched_pairs_bonds := (matched_pairs_bonds st3)(node_pair := None)\<rparr>))"

text \<open>\<open>link_pairs\<close> and \<open>link_with_parent\<close> register an induced edge in both directions.\<close>

fun link_pairs :: "pair \<Rightarrow> (pair \<times> bond_types) list \<Rightarrow> ST \<Rightarrow> unit outcome" where
  "link_pairs from_pair [] st =
     (if matched_pairs_bonds st from_pair = None then (Inl AssertionError, st) else (Inr (), st))"
| "link_pairs from_pair ((p, bt) # rest) st =
     (case matched_pairs_bonds st from_pair of
        None \<Rightarrow> (Inl AssertionError, st)
      | Some from_bonds \<Rightarrow>
          (case matched_pairs_bonds st p of
             None \<Rightarrow> (Inl AssertionError, st)
           | Some _ \<Rightarrow>
               let b1 = (matched_pairs_bonds st)(from_pair \<mapsto> set_add (p, bt) from_bonds);
                   b2 = b1(p \<mapsto> set_add (from_pair, bt) (the (b1 p)))
               in link_pairs from_pair rest (st\<lparr>matched_pairs_bonds := b2\<rparr>)))"

definition link_with_parent :: "pair \<Rightarrow> pair \<Rightarrow> bond_types \<Rightarrow> ST \<Rightarrow> unit outcome" where
  "link_with_parent p parent bond_type st =
     (case matched_pairs_bonds st p of
        None \<Rightarrow> (Inl AssertionError, st)
      | Some _ \<Rightarrow>
          (case matched_pairs_bonds st parent of
             None \<Rightarrow> (Inl AssertionError, st)
           | Some parent_bonds \<Rightarrow>
               let b1 = (matched_pairs_bonds st)(parent \<mapsto> set_add (p, bond_type) parent_bonds);
                   b2 = b1(p \<mapsto> set_add (parent, bond_type) (the (b1 p)))
               in (Inr (), st\<lparr>matched_pairs_bonds := b2\<rparr>)))"

text \<open>
  \<open>merge\<close>: the first loop adds every pair of the other topology that is not yet present,
  the second copies the bonds of the pairs that were added.
\<close>

fun merge_add :: "atoms \<Rightarrow> pair list \<Rightarrow> pair list \<Rightarrow> ST \<Rightarrow> (pair list) outcome" where
  "merge_add h [] merged_pairs st = (Inr merged_pairs, st)"
| "merge_add h (p # rest) merged_pairs st =
     (if contains_pair st p then merge_add h rest merged_pairs st
      else if contains_node st (fst p) \<or> contains_node st (snd p)
        then (Inl (Exception ''already uses that node''), st)
      else (case add_node_pair h p st of
              (Inl e, st') \<Rightarrow> (Inl e, st')
            | (Inr _, st') \<Rightarrow> merge_add h rest (merged_pairs @ [p]) st'))"

fun merge_link :: "ST \<Rightarrow> pair list \<Rightarrow> ST \<Rightarrow> unit outcome" where
  "merge_link other [] st = (Inr (), st)"
| "merge_link other (p # rest) st =
     (case matched_pairs_bonds other p of
        None \<Rightarrow> (Inl KeyError, st)
      | Some bonded_pairs \<Rightarrow>
          if length bonded_pairs = 0 then (Inl AssertionError, st)
          else (case link_pairs p bonded_pairs st of
                  (Inl e, st') \<Rightarrow> (Inl e, st')
                | (Inr _, st') \<Rightarrow> merge_link other rest st'))"

definition merge :: "atoms \<Rightarrow> ST \<Rightarrow> ST \<Rightarrow> (pair list) outcome" where
  "merge h other st =
     (case merge_add h (matched_pairs other) [] st of
        (Inl e, st1) \<Rightarrow> (Inl e, st1)
      | (Inr merged_pairs, st1) \<Rightarrow>
          (case merge_link other merged_pairs st1 of
             (Inl e, st2) \<Rightarrow> (Inl e, st2)
           | (Inr _, st2) \<Rightarrow>
               (Inr merged_pairs,
                st2\<lparr>nodes_added_log := nodes_added_log st2 @ [MergedWith merged_pairs]\<rparr>)))"

section \<open>Charge filters\<close>

definition get_net_charge :: "atoms \<Rightarrow> ST \<Rightarrow> real" where
  "get_net_charge h st =
     sum_list (map (\<lambda>(n1, n2). charge (h n1) - charge (h n2)) (matched_pairs st))"

text \<open>\<open>max\<close> over a generator raises \<open>ValueError\<close> when there is no pair.\<close>

definition get_worst_match_charge :: "atoms \<Rightarrow> ST \<Rightarrow> error + real" where
  "get_worst_match_charge h st =
     (case map (\<lambda>(n1, n2). \<bar>charge (h n1) - charge (h n2)\<bar>) (matched_pairs st) of
        [] \<Rightarrow> Inl ValueError
      | d # ds \<Rightarrow> Inr (fold max ds d))"

definition remove_worst_charge_match :: "atoms \<Rightarrow> ST \<Rightarrow> real outcome" where
  "remove_worst_charge_match h st =
     (case get_worst_match_charge h st of
        Inl e \<Rightarrow> (Inl e, st)
      | Inr largest_difference \<Rightarrow>
          if largest_difference = 0 then (Inr 0, st)
          else
            (case filter (\<lambda>(n1, n2). \<bar>charge (h n1) - charge (h n2)\<bar> = largest_difference)
                         (matched_pairs st) of
               [] \<Rightarrow> (Inl IndexError, st)
             | worst_match # _ \<Rightarrow>
                 (case remove_node_pair worst_match st of
                    (Inl e, st') \<Rightarrow> (Inl e, st')
                  | (Inr _, st') \<Rightarrow>
                      (Inr \<bar>largest_difference\<bar>,
                       st'\<lparr>removed_due_to_net_charge :=
                             removed_due_to_net_charge st' @ [(worst_match, largest_difference)]\<rparr>))))"

text \<open>\<open>str.startswith('H')\<close>.\<close>

definition startswith_H :: "string \<Rightarrow> bool" where
  "startswith_H s \<longleftrightarrow> take 1 s = ''H''"

text \<open>
  \<open>remove_attached_hydrogens\<close>: the loop runs over \<open>list(attached_pairs)\<close>, a snapshot
  of the set of pairs bound to \<open>node_pair\<close>.
\<close>

fun remove_attached_loop ::
  "atoms \<Rightarrow> (pair \<times> bond_types) list \<Rightarrow> pair list \<Rightarrow> ST \<Rightarrow> (pair list) outcome" where
  "remove_attached_loop h [] removed_pairs st = (Inr removed_pairs, st)"
| "remove_attached_loop h ((p, bt) # rest) removed_pairs st =
     (if \<not> startswith_H (name (h (fst p))) then remove_attached_loop h rest removed_pairs st
      else (case remove_node_pair p st of
              (Inl e, st') \<Rightarrow> (Inl e, st')
            | (Inr _, st') \<Rightarrow> remove_attached_loop h rest (removed_pairs @ [p]) st'))"

definition remove_attached_hydrogens :: "atoms \<Rightarrow> pair \<Rightarrow> ST \<Rightarrow> (pair list) outcome" where
  "remove_attached_hydrogens h node_pair st =
     (case matched_pairs_bonds st node_pair of
        None \<Rightarrow> (Inr [], st)
      | Some attached_pairs \<Rightarrow> remove_attached_loop h attached_pairs [] st)"

text \<open>
  \<open>refine_against_charges\<close>: the loop runs over \<open>self.matched_pairs[::-1]\<close>, a reversed
  copy.  The final \<open>sort(key=lambda x: x[1], reverse=True)\<close> is a stable descending sort.
\<close>

fun refine_loop :: "atoms \<Rightarrow> real \<Rightarrow> bool \<Rightarrow> pair list \<Rightarrow> ST \<Rightarrow> unit outcome" where
  "refine_loop h atol remove_dangling_h [] st = (Inr (), st)"
| "refine_loop h atol remove_dangling_h ((node1, node2) # rest) st =
     (if eq (h node1) (h node2) atol then refine_loop h atol remove_dangling_h rest st
      else
        (case (if remove_dangling_h then remove_attached_hydrogens h (node1, node2) st
               else (Inr [], st)) of
           (Inl e, st1) \<Rightarrow> (Inl e, st1)
         | (Inr _, st1) \<Rightarrow>
             (case remove_node_pair (node1, node2) st1 of
                (Inl e, st2) \<Rightarrow> (Inl e, st2)
              | (Inr _, st2) \<Rightarrow>
                  refine_loop h atol remove_dangling_h rest
                    (st2\<lparr>removed_pairs_with_charge_difference :=
                          removed_pairs_with_charge_difference st2
                            @ [((node1, node2), \<bar>charge (h node2) - charge (h node1)\<bar>)]\<rparr>))))"

definition sort_descending :: "(pair \<times> real) list \<Rightarrow> (pair \<times> real) list" where
  "sort_descending xs = sort_key (\<lambda>x. - snd x) xs"

definition refine_against_charges ::
  "atoms \<Rightarrow> real \<Rightarrow> bool \<Rightarrow> ST \<Rightarrow> ((pair \<times> real) list) outcome" where
  "refine_against_charges h atol remove_dangling_h st =
     (case refine_loop h atol remove_dangling_h (rev (matched_pairs st)) st of
        (Inl e, st') \<Rightarrow> (Inl e, st')
      | (Inr _, st') \<Rightarrow>
          let st'' = st'\<lparr>removed_pairs_with_charge_difference :=
                          sort_descending (removed_pairs_with_charge_difference st')\<rparr>
          in (Inr (removed_pairs_with_charge_difference st''), st''))"

text \<open>\<open>matched_atom_types_are_the_same\<close> removes, in reverse order, the pairs whose types differ.\<close>

fun types_loop :: "atoms \<Rightarrow> pair list \<Rightarrow> ST \<Rightarrow> unit outcome" where
  "types_loop h [] st = (Inr (), st)"
| "types_loop h ((a1, a2) # rest) st =
     (if same_type (h a1) (h a2) then types_loop h rest st
      else (case remove_node_pair (a1, a2) st of
              (Inl e, st') \<Rightarrow> (Inl e, st')
            | (Inr _, st') \<Rightarrow> types_loop h rest st'))"

definition matched_atom_types_are_the_same :: "atoms \<Rightarrow> ST \<Rightarrow> unit outcome" where
  "matched_atom_types_are_the_same h st = types_loop h (rev (matched_pairs st)) st"

section \<open>Partial rings\<close>

text \<open>
  A cycle is a Python set of atoms, kept as the list of its elements in iteration order;
  \<open>len(c)\<close> counts its distinct elements, and \<open>list.remove(c)\<close> compares cycles as sets.
\<close>

type_synonym cycle = "atom list"

definition len_cycle :: "cycle \<Rightarrow> nat" where
  "len_cycle c = length (remdups c)"

definition MAX_CIRCLE_SIZE :: nat where
  "MAX_CIRCLE_SIZE = 7"

fun list_remove_cycle :: "cycle \<Rightarrow> cycle list \<Rightarrow> error + cycle list" where
  "list_remove_cycle c [] = Inl ValueError"
| "list_remove_cycle c (d # ds) =
     (if set d = set c then Inr ds
      else (case list_remove_cycle c ds of Inl e \<Rightarrow> Inl e | Inr ds' \<Rightarrow> Inr (d # ds')))"

definition get_pair_with_atom :: "ST \<Rightarrow> atom \<Rightarrow> pair option" where
  "get_pair_with_atom st a = find (\<lambda>(a1, a2). a1 = a \<or> a2 = a) (matched_pairs st)"

text \<open>
  \<open>are_matched_sets\<close>; unpacking the \<open>None\<close> that \<open>get_pair_with_atom\<close> returns for an
  unmatched atom raises \<open>TypeError\<close>.
\<close>

fun are_matched_loop :: "ST \<Rightarrow> atom list \<Rightarrow> cycle \<Rightarrow> error + bool" where
  "are_matched_loop st [] r_atoms = Inr True"
| "are_matched_loop st (a # rest) r_atoms =
     (case get_pair_with_atom st a of
        None \<Rightarrow> Inl TypeError
      | Some (_, matched_r) \<Rightarrow>
          if matched_r \<notin> set r_atoms then Inr False else are_matched_loop st rest r_atoms)"

definition are_matched_sets :: "ST \<Rightarrow> cycle \<Rightarrow> cycle \<Rightarrow> error + bool" where
  "are_matched_sets st l_atoms r_atoms =
     (if len_cycle l_atoms \<noteq> len_cycle r_atoms then Inr False
      else are_matched_loop st (remdups l_atoms) r_atoms)"

text \<open>
  The first phase of \<open>enforce_no_partial_rings\<close> works on four lists of cycles and collects
  the fully overlapping ones.
\<close>

record circles =
  l_circles :: "cycle list"
  r_circles :: "cycle list"
  l_matched_circles :: "cycle list"
  r_matched_circles :: "cycle list"
  correct_circles :: "(cycle \<times> cycle) list"

definition accept_circles :: "cycle \<Rightarrow> cycle \<Rightarrow> circles \<Rightarrow> error + circles" where
  "accept_circles lm rm cs =
     (case list_remove_cycle lm (l_matched_circles cs) of
        Inl e \<Rightarrow> Inl e
      | Inr lms \<Rightarrow>
     (case list_remove_cycle rm (r_matched_circles cs) of
        Inl e \<Rightarrow> Inl e
      | Inr rms \<Rightarrow>
     (case list_remove_cycle lm (l_circles cs) of
        Inl e \<Rightarrow> Inl e
      | Inr lcs \<Rightarrow>
     (case list_remove_cycle rm (r_circles cs) of
        Inl e \<Rightarrow> Inl e
      | Inr rcs \<Rightarrow>
          Inr (cs\<lparr>l_matched_circles := lms, r_matched_circles := rms,
                  l_circles := lcs, r_circles := rcs,
                  correct_circles := correct_circles cs @ [(lm, rm)]\<rparr>)))))"

fun match_inner :: "ST \<Rightarrow> cycle \<Rightarrow> cycle list \<Rightarrow> circles \<Rightarrow> error + circles" where
  "match_inner st lm [] cs = Inr cs"
| "match_inner st lm (rm # rest) cs =
     (case are_matched_sets st lm rm of
        Inl e \<Rightarrow> Inl e
      | Inr False \<Rightarrow> match_inner st lm rest cs
      | Inr True \<Rightarrow>
          (case accept_circles lm rm cs of
             Inl e \<Rightarrow> Inl e
           | Inr cs' \<Rightarrow> match_inner st lm rest cs'))"

fun match_outer :: "ST \<Rightarrow> cycle list \<Rightarrow> circles \<Rightarrow> error + circles" where
  "match_outer st [] cs = Inr cs"
| "match_outer st (lm # rest) cs =
     (case match_inner st lm (rev (r_matched_circles cs)) cs of
        Inl e \<Rightarrow> Inl e
      | Inr cs' \<Rightarrow> match_outer st rest cs')"

text \<open>
  \<open>_remove_unmatched_ring_atoms\<close>.  \<open>remove_node_pair(None)\<close> fails in
  \<open>len(node_pair)\<close> with \<open>TypeError\<close>.
\<close>

fun remove_ring_atoms :: "atom list \<Rightarrow> pair list \<Rightarrow> ST \<Rightarrow> (pair list) outcome" where
  "remove_ring_atoms [] removed_pairs st = (Inr removed_pairs, st)"
| "remove_ring_atoms (a # rest) removed_pairs st =
     (if contains_node st a then
        (case get_pair_with_atom st a of
           None \<Rightarrow> (Inl TypeError, st)
         | Some p \<Rightarrow>
             (case remove_node_pair p st of
                (Inl e, st') \<Rightarrow> (Inl e, st')
              | (Inr _, st') \<Rightarrow>
                  remove_ring_atoms rest (removed_pairs @ [p])
                    (st'\<lparr>removed_because_unmatched_rings :=
                          removed_because_unmatched_rings st' @ [p]\<rparr>)))
      else remove_ring_atoms rest removed_pairs st)"

fun remove_unmatched_ring_atoms_from ::
  "cycle list \<Rightarrow> pair list \<Rightarrow> ST \<Rightarrow> (pair list) outcome" where
  "remove_unmatched_ring_atoms_from [] removed_pairs st = (Inr removed_pairs, st)"
| "remove_unmatched_ring_atoms_from (c # rest) removed_pairs st =
     (case remove_ring_atoms (remdups c) removed_pairs st of
        (Inl e, st') \<Rightarrow> (Inl e, st')
      | (Inr removed_pairs', st') \<Rightarrow> remove_unmatched_ring_atoms_from rest removed_pairs' st')"

definition remove_unmatched_ring_atoms :: "cycle list \<Rightarrow> ST \<Rightarrow> (pair list) outcome" where
  "remove_unmatched_ring_atoms cs st = remove_unmatched_ring_atoms_from cs [] st"

text \<open>The correct cycles touched by a removal are appended to the lists to disassemble.\<close>

fun readd_affected ::
  "(cycle \<times> cycle) list \<Rightarrow> pair list \<Rightarrow> pair list \<Rightarrow> cycle list \<times> cycle list
    \<Rightarrow> cycle list \<times> cycle list" where
  "readd_affected [] l_removed r_removed (lcs, rcs) = (lcs, rcs)"
| "readd_affected ((l_circle, r_circle) # rest) l_removed r_removed (lcs, rcs) =
     (let affected_l_circle = list_ex (\<lambda>(l_atom, r_atom). l_atom \<in> set l_circle) l_removed;
          affected_r_circle = list_ex (\<lambda>(l_atom, r_atom). r_atom \<in> set r_circle) r_removed
      in if affected_l_circle \<or> affected_r_circle
         then readd_affected rest l_removed r_removed (lcs @ [l_circle], rcs @ [r_circle])
         else readd_affected rest l_removed r_removed (lcs, rcs))"

subsection \<open>Removal shortens the list of matched pairs\<close>

lemma detach_matched_pairs [simp]:
  "matched_pairs (snd (detach p bs st)) = matched_pairs st"
  by (induction p bs st rule: detach.induct) (auto split: option.splits)

lemma detach_nodes [simp]:
  "nodes (snd (detach p bs st)) = nodes st"
  by (induction p bs st rule: detach.induct) (auto split: option.splits)

lemma remove_node_pair_matched_pairs:
  "matched_pairs (snd (remove_node_pair p st)) =
     (if p \<in> set (matched_pairs st) then remove1 p (matched_pairs st) else matched_pairs st)"
  by (simp add: remove_node_pair_def Let_def split: option.splits)

lemma remove_node_pair_ok_mem:
  "fst (remove_node_pair p st) = Inr u \<Longrightarrow> p \<in> set (matched_pairs st)"
  by (auto simp: remove_node_pair_def Let_def split: if_splits)

lemma remove_node_pair_length:
  assumes "remove_node_pair p st = (Inr u, st')"
  shows "Suc (length (matched_pairs st')) = length (matched_pairs st)"
proof -
  have m: "p \<in> set (matched_pairs st)"
    using assms remove_node_pair_ok_mem[of p st u] by simp
  have "matched_pairs st' = remove1 p (matched_pairs st)"
    using assms m remove_node_pair_matched_pairs[of p st] by simp
  with m show ?thesis
    by (simp add: length_remove1) (metis Suc_pred length_pos_if_in_set)
qed

lemma remove_ring_atoms_length:
  "remove_ring_atoms as rem st = (Inr rem', st') \<Longrightarrow>
     length (matched_pairs st') + length rem' = length (matched_pairs st) + length rem"
proof (induction as rem st rule: remove_ring_atoms.induct)
  case (1 removed_pairs st)
  then show ?case by simp
next
  case (2 a rest removed_pairs st)
  then show ?case
    by (auto split: if_splits option.splits prod.splits sum.splits dest!: remove_node_pair_length)
qed

lemma remove_unmatched_from_length:
  "remove_unmatched_ring_atoms_from cs rem st = (Inr rem', st') \<Longrightarrow>
     length (matched_pairs st') + length rem' = length (matched_pairs st) + length rem"
proof (induction cs rem st rule: remove_unmatched_ring_atoms_from.induct)
  case (1 removed_pairs st)
  then show ?case by simp
next
  case (2 c rest removed_pairs st)
  then show ?case
    by (auto split: prod.splits sum.splits dest!: remove_ring_atoms_length)
qed

lemma remove_unmatched_ring_atoms_length:
  "remove_unmatched_ring_atoms cs st = (Inr rem, st') \<Longrightarrow>
     length (matched_pairs st') + length rem = length (matched_pairs st)"
  using remove_unmatched_from_length[of cs "[]" st rem st']
  by (simp add: remove_unmatched_ring_atoms_def)

text \<open>
  The \<open>while True\<close> loop of \<open>enforce_no_partial_rings\<close>.  It ends because a round
  that removes nothing leaves the loop and every other round shortens \<open>matched_pairs\<close>.
\<close>

function rings_loop :: "cycle list \<Rightarrow> cycle list \<Rightarrow> (cycle \<times> cycle) list \<Rightarrow> ST \<Rightarrow> unit outcome" where
  "rings_loop lcs rcs correct st =
     (case remove_unmatched_ring_atoms lcs st of
        (Inl e, st1) \<Rightarrow> (Inl e, st1)
      | (Inr l_removed_pairs, st1) \<Rightarrow>
          (case remove_unmatched_ring_atoms rcs st1 of
             (Inl e, st2) \<Rightarrow> (Inl e, st2)
           | (Inr r_removed_pairs, st2) \<Rightarrow>
               if length l_removed_pairs = 0 \<and> length r_removed_pairs = 0 then (Inr (), st2)
               else
                 (case readd_affected correct l_removed_pairs r_removed_pairs (lcs, rcs) of
                    (lcs', rcs') \<Rightarrow> rings_loop lcs' rcs' correct st2)))"
  by pat_completeness auto
termination
  apply (relation "measure (\<lambda>(lcs, rcs, correct, st). length (matched_pairs st))")
   apply simp
  apply (auto dest!: remove_unmatched_ring_atoms_length sym[of "(Inr _, _)"] simp: neq_Nil_conv)
  done

declare rings_loop.simps [simp del]

text \<open>
  \<open>enforce_no_partial_rings\<close>.  The cycle bases of the two ligands and of the two matched
  subgraphs come from \<open>networkx.cycle_basis\<close> and are arguments here.
\<close>

definition enforce_no_partial_rings ::
  "cycle list \<Rightarrow> cycle list \<Rightarrow> cycle list \<Rightarrow> cycle list \<Rightarrow> ST \<Rightarrow> unit outcome" where
  "enforce_no_partial_rings l_original r_original l_induced r_induced st =
     (if top1 st = None \<or> top2 st = None then (Inl TypeError, st)
      else
        let small = filter (\<lambda>c. len_cycle c \<le> MAX_CIRCLE_SIZE);
            cs0 = \<lparr>l_circles = small l_original, r_circles = small r_original,
                   l_matched_circles = small l_induced, r_matched_circles = small r_induced,
                   correct_circles = []\<rparr>
        in (case match_outer st (rev (l_matched_circles cs0)) cs0 of
              Inl e \<Rightarrow> (Inl e, st)
            | Inr cs \<Rightarrow>
                if \<not> (length (l_matched_circles cs) = length (r_matched_circles cs)
                        \<and> length (r_matched_circles cs) = 0)
                then (Inl AssertionError, st)
                else rings_loop (l_circles cs) (r_circles cs) (correct_circles cs) st))"

section \<open>Examples: two chains of two atoms\<close>

text \<open>Two-atom chains \<open>C1-N1\<close> (atoms 0, 1) and \<open>C11-N11\<close> (atoms 2, 3).\<close>

definition chain_atoms :: atoms where
  "chain_atoms a =
     (if a = 0 then \<lparr>name = ''C1'', atype = ''C'', element = ''C'', charge = 0,
                        bonds = [(1, ''1'')], use_general_type = False\<rparr>
      else if a = 1 then \<lparr>name = ''N1'', atype = ''N'', element = ''N'', charge = 0,
                        bonds = [(0, ''1'')], use_general_type = False\<rparr>
      else if a = 2 then \<lparr>name = ''C11'', atype = ''C'', element = ''C'', charge = 0,
                        bonds = [(3, ''1'')], use_general_type = False\<rparr>
      else \<lparr>name = ''N11'', atype = ''N'', element = ''N'', charge = 0,
             bonds = [(2, ''1'')], use_general_type = False\<rparr>)"

section \<open>The macrocycle exemption of the partial-ring filter\<close>

text \<open>A cycle avoids the pair when it contains neither of its atoms.\<close>

definition avoids :: "pair \<Rightarrow> cycle \<Rightarrow> bool" where
  "avoids p c \<longleftrightarrow> fst p \<notin> set c \<and> snd p \<notin> set c"

definition circles_avoid :: "pair \<Rightarrow> circles \<Rightarrow> bool" where
  "circles_avoid p cs \<longleftrightarrow>
     (\<forall>c \<in> set (l_circles cs) \<union> set (r_circles cs). avoids p c) \<and>
     (\<forall>(l, r) \<in> set (correct_circles cs). avoids p l \<and> avoids p r)"

text \<open>
  A topology with an eight-membered ring and a three-membered ring on each side; one pair
  is matched in each ring.
\<close>

definition ring_st :: ST where
  "ring_st = (SuperimposedTopology (Some [0, 1, 2, 3, 4, 5, 6, 7, 10, 11, 12])
                 (Some [100, 101, 102, 103, 104, 105, 106, 107, 110, 111, 112]) (Some []) (Some []))
     \<lparr>matched_pairs := [(0, 100), (10, 110)], nodes := {0, 100, 10, 110},
      matched_pairs_bonds := [(0, 100) \<mapsto> [], (10, 110) \<mapsto> []]\<rparr>"

section \<open>The net-charge filter loop\<close>

text \<open>
  The \<open>while\<close> loop that \<open>superimpose_topologies\<close> runs on one topology.  The result
  \<open>Inr True\<close> says that the topology became empty and is dropped from the list,
  \<open>None\<close> would be a loop that never ends.
\<close>

partial_function (option) net_charge_loop :: "atoms \<Rightarrow> real \<Rightarrow> ST \<Rightarrow> (bool outcome) option" where
  "net_charge_loop h net_charge_threshold st =
     (if \<bar>get_net_charge h st\<bar> > net_charge_threshold then
        (case remove_worst_charge_match h st of
           (Inl e, st') \<Rightarrow> Some (Inl e, st')
         | (Inr largest_difference, st') \<Rightarrow>
             if largest_difference = 0
             then Some (Inl (Exception ''How can there be net charge but no pair can be found that actually is different?''), st')
             else if len_st st' = 0 then Some (Inr True, st')
             else net_charge_loop h net_charge_threshold st')
      else Some (Inr False, st))"

declare net_charge_loop.simps [code]

section \<open>Well-formed topologies\<close>

text \<open>
  The state the search builds: no atom is in two pairs, \<open>nodes\<close> holds the atoms of the
  pairs, every pair has its set of bonds, and the bonds are symmetric, with at most one
  bond between two pairs.  On such a state \<open>remove_node_pair\<close> of a matched pair does
  not raise, and leaves such a state.
\<close>

definition wf_st :: "ST \<Rightarrow> bool" where
  "wf_st st \<longleftrightarrow>
     distinct (map fst (matched_pairs st) @ map snd (matched_pairs st)) \<and>
     nodes st = set (map fst (matched_pairs st)) \<union> set (map snd (matched_pairs st)) \<and>
     dom (matched_pairs_bonds st) = set (matched_pairs st) \<and>
     (\<forall>p \<in> set (matched_pairs st). \<forall>bs. matched_pairs_bonds st p = Some bs \<longrightarrow>
        distinct (map fst bs) \<and>
        (\<forall>(q, bt) \<in> set bs. q \<noteq> p \<and>
           (\<exists>bs'. matched_pairs_bonds st q = Some bs' \<and> (p, bt) \<in> set bs')))"

definition unlink :: "pair \<Rightarrow> (pair \<rightharpoonup> (pair \<times> bond_types) list) \<Rightarrow> (pair \<rightharpoonup> (pair \<times> bond_types) list)" where
  "unlink p B = (\<lambda>r. if r = p then None else map_option (filter (\<lambda>e. fst e \<noteq> p)) (B r))"

text \<open>The bonds after detaching \<open>p\<close> from the pairs listed in \<open>bs\<close>.\<close>

definition detached :: "pair \<Rightarrow> (pair \<times> bond_types) list \<Rightarrow> (pair \<rightharpoonup> (pair \<times> bond_types) list) \<Rightarrow> (pair \<rightharpoonup> (pair \<times> bond_types) list)" where
  "detached p bs B = (\<lambda>r. if r \<in> fst ` set bs then map_option (filter (\<lambda>e. fst e \<noteq> p)) (B r) else B r)"

definition removed_pair :: "pair \<Rightarrow> ST \<Rightarrow> ST" where
  "removed_pair p st =
     st\<lparr>matched_pairs := remove1 p (matched_pairs st),
        nodes := nodes st - {fst p} - {snd p},
        nodes_added_log := nodes_added_log st @ [Removed p],
        matched_pairs_bonds := unlink p (matched_pairs_bonds st)\<rparr>"

section \<open>Charge refinement\<close>



text \<open>
  An example: \<open>C1\<close> bound to \<open>N1\<close> and two hydrogens, one of them named \<open>1H2\<close>, matched
  atom by atom with the same fragment of the other ligand.  The carbons have the same
  charge and the types \<open>CA\<close> and \<open>CB\<close>; the nitrogens differ in charge by 0.2.
\<close>

definition amide_atoms :: atoms where
  "amide_atoms a =
     (if a = 0 then \<lparr>name = ''C1'', atype = ''CA'', element = ''C'', charge = - 1 / 10,
                        bonds = [(1, ''1''), (2, ''1''), (3, ''1'')], use_general_type = True\<rparr>
      else if a = 1 then \<lparr>name = ''N1'', atype = ''N'', element = ''N'', charge = - 1 / 2,
                        bonds = [(0, ''1'')], use_general_type = True\<rparr>
      else if a = 2 then \<lparr>name = ''H1'', atype = ''HC'', element = ''H'', charge = 3 / 10,
                        bonds = [(0, ''1'')], use_general_type = True\<rparr>
      else if a = 3 then \<lparr>name = ''1H2'', atype = ''HC'', element = ''H'', charge = 3 / 10,
                        bonds = [(0, ''1'')], use_general_type = True\<rparr>
      else if a = 10 then \<lparr>name = ''C11'', atype = ''CB'', element = ''C'', charge = - 1 / 10,
                        bonds = [(11, ''1''), (12, ''1''), (13, ''1'')], use_general_type = True\<rparr>
      else if a = 11 then \<lparr>name = ''N11'', atype = ''N'', element = ''N'', charge = - 7 / 10,
                        bonds = [(10, ''1'')], use_general_type = True\<rparr>
      else if a = 12 then \<lparr>name = ''H11'', atype = ''HC'', element = ''H'', charge = 3 / 10,
                        bonds = [(10, ''1'')], use_general_type = True\<rparr>
      else \<lparr>name = ''1H12'', atype = ''HC'', element = ''H'', charge = 3 / 10,
             bonds = [(10, ''1'')], use_general_type = True\<rparr>)"

definition single_bond :: bond_types where
  "single_bond = (Some ''1'', Some ''1'')"

definition amide_st :: ST where
  "amide_st = (SuperimposedTopology (Some [0, 1, 2, 3]) (Some [10, 11, 12, 13]) (Some []) (Some []))
     \<lparr>matched_pairs := [(3, 13), (0, 10), (2, 12), (1, 11)],
      nodes := {0, 1, 2, 3, 10, 11, 12, 13},
      matched_pairs_bonds :=
        [(0, 10) \<mapsto> [((1, 11), single_bond), ((2, 12), single_bond), ((3, 13), single_bond)],
         (1, 11) \<mapsto> [((0, 10), single_bond)],
         (2, 12) \<mapsto> [((0, 10), single_bond)],
         (3, 13) \<mapsto> [((0, 10), single_bond)]]\<rparr>"

section \<open>Attached hydrogens\<close>

text \<open>\<open>q\<close> is bound to \<open>p\<close> in \<open>matched_pairs_bonds\<close>.\<close>

definition adjacent :: "ST \<Rightarrow> pair \<Rightarrow> pair \<Rightarrow> bool" where
  "adjacent st p q =
     (case matched_pairs_bonds st p of None \<Rightarrow> False | Some bs \<Rightarrow> q \<in> fst ` set bs)"

definition named_H :: "atoms \<Rightarrow> pair \<Rightarrow> bool" where
  "named_H h q \<longleftrightarrow> startswith_H (name (h (fst q)))"

section \<open>The overlay kernel\<close>

text \<open>
  \<open>_cycles_overlap\<close> and \<open>cycle_spans_multiple_cycles\<close>.  The two attributes it reads are
  missing when the topology was built without the ligands.
\<close>

definition cycles_overlap :: "ST \<Rightarrow> cycle \<Rightarrow> cycle \<Rightarrow> bool" where
  "cycles_overlap st l_cycle r_cycle \<longleftrightarrow>
     list_ex (\<lambda>left. list_ex (\<lambda>right. contains_pair st (left, right)) r_cycle) l_cycle"

definition cycle_spans_multiple_cycles :: "ST \<Rightarrow> error + bool" where
  "cycle_spans_multiple_cycles st =
     (case (nonoverlapping_l_cycles st, nonoverlapping_r_cycles st) of
        (Some l_cycles, Some r_cycles) \<Rightarrow>
          Inr (list_ex (\<lambda>l_cycle. length (filter (cycles_overlap st l_cycle) r_cycles) > 1) l_cycles
               \<or> list_ex (\<lambda>r_cycle. length (filter (\<lambda>l_cycle. cycles_overlap st l_cycle r_cycle) l_cycles) > 1) r_cycles)
      | _ \<Rightarrow> Inl AttributeError)"

text \<open>
  The joint cycle check: every bond of \<open>n1\<close> that leads, not to the parent, into the
  topology must have a bond of \<open>n2\<close> leading to its partner, and the same with the sides
  exchanged.
\<close>

definition closes_same_cycle :: "atoms \<Rightarrow> ST \<Rightarrow> atom \<Rightarrow> atom \<Rightarrow> atom option \<Rightarrow> atom option \<Rightarrow> bool" where
  "closes_same_cycle h suptop n1 n2 parent_n1 parent_n2 \<longleftrightarrow>
     list_all (\<lambda>b1.
        if Some (fst b1) \<noteq> parent_n1 \<and> contains_node suptop (fst b1)
        then list_ex (\<lambda>b2. Some (fst b2) \<noteq> parent_n2 \<and> contains_node suptop (fst b2)
                          \<and> contains_pair suptop (fst b1, fst b2)) (bonds (h n2))
        else True) (bonds (h n1))
     \<and>
     list_all (\<lambda>b2.
        if Some (fst b2) \<noteq> parent_n2 \<and> contains_node suptop (fst b2)
        then list_ex (\<lambda>b1. Some (fst b1) \<noteq> parent_n1 \<and> contains_node suptop (fst b1)
                          \<and> contains_pair suptop (fst b1, fst b2)) (bonds (h n1))
        else True) (bonds (h n2))"

text \<open>The guards of \<open>_overlay\<close>, in the order of the code: \<open>Inr True\<close> is a dead branch.\<close>

definition overlay_guards ::
  "atoms \<Rightarrow> atom \<Rightarrow> atom \<Rightarrow> atom option \<Rightarrow> atom option \<Rightarrow> ST \<Rightarrow> bool \<Rightarrow> error + bool" where
  "overlay_guards h n1 n2 parent_n1 parent_n2 suptop use_element_type =
     (if contains_any_node suptop [n1, n2] then Inr True
      else if use_element_type \<and> \<not> same_element (h n1) (h n2) then Inr True
      else if \<not> use_element_type \<and> \<not> same_type (h n1) (h n2) then Inr True
      else if \<not> closes_same_cycle h suptop n1 n2 parent_n1 parent_n2 then Inr True
      else cycle_spans_multiple_cycles suptop)"

text \<open>The links to the pairs already present that are bound to the new pair on both sides.\<close>

fun link_existing :: "pair \<Rightarrow> (pair \<times> bond_types) list \<Rightarrow> ST \<Rightarrow> unit outcome" where
  "link_existing p [] st = (Inr (), st)"
| "link_existing p (l # rest) st =
     (if contains_pair st (fst l) then
        (case link_pairs p [l] st of
           (Inl e, st') \<Rightarrow> (Inl e, st')
         | (Inr _, st') \<Rightarrow> link_existing p rest st')
      else link_existing p rest st)"

definition bonded_pairs :: "atoms \<Rightarrow> atom \<Rightarrow> atom \<Rightarrow> atom option \<Rightarrow> atom option \<Rightarrow> (pair \<times> bond_types) list" where
  "bonded_pairs h n1 n2 parent_n1 parent_n2 =
     concat (map (\<lambda>(n1bonded_node, bond_type1).
               map (\<lambda>(n2bonded_node, bond_type2).
                      ((n1bonded_node, n2bonded_node), (Some bond_type1, Some bond_type2)))
                   (filter (\<lambda>b. Some (fst b) \<noteq> parent_n2) (bonds (h n2))))
             (filter (\<lambda>b. Some (fst b) \<noteq> parent_n1) (bonds (h n1))))"

definition overlay_commit ::
  "atoms \<Rightarrow> atom \<Rightarrow> atom \<Rightarrow> atom option \<Rightarrow> atom option \<Rightarrow> bond_types \<Rightarrow> ST \<Rightarrow> unit outcome" where
  "overlay_commit h n1 n2 parent_n1 parent_n2 bond_types suptop =
     (case add_node_pair h (n1, n2) suptop of
        (Inl e, st1) \<Rightarrow> (Inl e, st1)
      | (Inr _, st1) \<Rightarrow>
          (case (case (parent_n1, parent_n2) of
                   (None, None) \<Rightarrow> (Inr (), st1)
                 | (Some p1, Some p2) \<Rightarrow> link_with_parent (n1, n2) (p1, p2) bond_types st1
                 | _ \<Rightarrow> (Inl AssertionError, st1)) of
             (Inl e, st2) \<Rightarrow> (Inl e, st2)
           | (Inr _, st2) \<Rightarrow>
               link_existing (n1, n2) (bonded_pairs h n1 n2 parent_n1 parent_n2) st2))"

text \<open>\<open>itertools.groupby\<close> on a list: the runs of equal keys.\<close>

function groupby :: "('a \<Rightarrow> 'k) \<Rightarrow> 'a list \<Rightarrow> ('k \<times> 'a list) list" where
  "groupby key [] = []"
| "groupby key (x # xs) =
     (key x, x # takeWhile (\<lambda>y. key y = key x) xs) # groupby key (dropWhile (\<lambda>y. key y = key x) xs)"
  by pat_completeness auto
termination
  by (relation "measure (\<lambda>(key, xs). length xs)") (auto simp: length_dropWhile_le less_Suc_eq_le)

text \<open>Assignment \<open>d[k] = v\<close> to a dict kept in insertion order.\<close>

fun dict_set :: "'k \<Rightarrow> 'v \<Rightarrow> ('k \<times> 'v) list \<Rightarrow> ('k \<times> 'v) list" where
  "dict_set k v [] = [(k, v)]"
| "dict_set k v ((k', v') # rest) = (if k' = k then (k, v) # rest else (k', v') # dict_set k v rest)"

type_synonym solutions = "(atom \<times> (atom \<times> ST) list) list"

text \<open>
  The three nested loops that try every neighbour of \<open>n1\<close> against every neighbour of \<open>n2\<close>
  of the same element; \<open>rec\<close> is the recursive call on a copy of the topology.  \<open>None\<close> is
  a recursion that ran out of fuel.
\<close>

fun try_right :: "(atom \<Rightarrow> string \<Rightarrow> (ST option) outcome option) \<Rightarrow> (atom \<times> string) list
    \<Rightarrow> (atom \<times> ST) list \<Rightarrow> (error + (atom \<times> ST) list) option" where
  "try_right rec [] solutions_for_this_left_atom = Some (Inr solutions_for_this_left_atom)"
| "try_right rec ((n2bonded_node, bond_type2) # rest) solutions_for_this_left_atom =
     (case rec n2bonded_node bond_type2 of
        None \<Rightarrow> None
      | Some (Inl e, _) \<Rightarrow> Some (Inl e)
      | Some (Inr None, _) \<Rightarrow> try_right rec rest solutions_for_this_left_atom
      | Some (Inr (Some bond_solutions), _) \<Rightarrow>
          try_right rec rest (dict_set n2bonded_node bond_solutions solutions_for_this_left_atom))"

fun try_left :: "(atom \<Rightarrow> string \<Rightarrow> atom \<Rightarrow> string \<Rightarrow> (ST option) outcome option)
    \<Rightarrow> (atom \<times> string) list \<Rightarrow> (atom \<times> string) list \<Rightarrow> solutions \<Rightarrow> (error + solutions) option" where
  "try_left rec [] n2_bonds atom_type_solutions = Some (Inr atom_type_solutions)"
| "try_left rec ((n1bonded_node, bond_type1) # rest) n2_bonds atom_type_solutions =
     (case try_right (rec n1bonded_node bond_type1) n2_bonds [] of
        None \<Rightarrow> None
      | Some (Inl e) \<Rightarrow> Some (Inl e)
      | Some (Inr solutions_for_this_left_atom) \<Rightarrow>
          if length solutions_for_this_left_atom > 0
          then try_left rec rest n2_bonds
                 (dict_set n1bonded_node solutions_for_this_left_atom atom_type_solutions)
          else try_left rec rest n2_bonds atom_type_solutions)"

fun try_groups_right :: "(atom \<Rightarrow> string \<Rightarrow> atom \<Rightarrow> string \<Rightarrow> (ST option) outcome option)
    \<Rightarrow> string \<Rightarrow> (atom \<times> string) list \<Rightarrow> (string \<times> (atom \<times> string) list) list
    \<Rightarrow> solutions list \<Rightarrow> (error + solutions list) option" where
  "try_groups_right rec n1_type n1_bonds [] combinations = Some (Inr combinations)"
| "try_groups_right rec n1_type n1_bonds ((n2_type, n2_bonds) # rest) combinations =
     (if n1_type \<noteq> n2_type then try_groups_right rec n1_type n1_bonds rest combinations
      else (case try_left rec n1_bonds n2_bonds [] of
              None \<Rightarrow> None
            | Some (Inl e) \<Rightarrow> Some (Inl e)
            | Some (Inr atom_type_solutions) \<Rightarrow>
                if length atom_type_solutions \<noteq> 0
                then try_groups_right rec n1_type n1_bonds rest (combinations @ [atom_type_solutions])
                else try_groups_right rec n1_type n1_bonds rest combinations))"

fun try_groups :: "(atom \<Rightarrow> string \<Rightarrow> atom \<Rightarrow> string \<Rightarrow> (ST option) outcome option)
    \<Rightarrow> (string \<times> (atom \<times> string) list) list \<Rightarrow> (string \<times> (atom \<times> string) list) list
    \<Rightarrow> solutions list \<Rightarrow> (error + solutions list) option" where
  "try_groups rec [] n2_groups combinations = Some (Inr combinations)"
| "try_groups rec ((n1_type, n1_bonds) # rest) n2_groups combinations =
     (case try_groups_right rec n1_type n1_bonds n2_groups combinations of
        None \<Rightarrow> None
      | Some (Inl e) \<Rightarrow> Some (Inl e)
      | Some (Inr combinations') \<Rightarrow> try_groups rec rest n2_groups combinations')"

text \<open>
  \<open>_overlay\<close>.  The first argument bounds the depth of the recursion.  \<open>resolve\<close> stands
  for the code that turns the collected combinations into one topology
  (\<open>solve_one_combination\<close>, the merging of the solutions and \<open>extract_best_suptop\<close>):
  it ranks candidates by the RMSD after an alignment computed by MDAnalysis.  The result
  is what the call returns (\<open>Inr None\<close> is Python's \<open>None\<close>) with the state in which it
  leaves the topology it was given.
\<close>

fun overlay :: "nat \<Rightarrow> (solutions list \<Rightarrow> error + ST) \<Rightarrow> atoms \<Rightarrow> atom \<Rightarrow> atom
    \<Rightarrow> atom option \<Rightarrow> atom option \<Rightarrow> bond_types \<Rightarrow> ST \<Rightarrow> bool \<Rightarrow> (ST option) outcome option" where
  "overlay 0 resolve h n1 n2 parent_n1 parent_n2 bond_types suptop use_element_type = None"
| "overlay (Suc fuel) resolve h n1 n2 parent_n1 parent_n2 bond_types suptop use_element_type =
     (case overlay_guards h n1 n2 parent_n1 parent_n2 suptop use_element_type of
        Inl e \<Rightarrow> Some (Inl e, suptop)
      | Inr True \<Rightarrow> Some (Inr None, suptop)
      | Inr False \<Rightarrow>
          (case overlay_commit h n1 n2 parent_n1 parent_n2 bond_types suptop of
             (Inl e, st) \<Rightarrow> Some (Inl e, st)
           | (Inr _, st) \<Rightarrow>
               let n1_bonds_no_parent = filter (\<lambda>bond. Some (fst bond) \<noteq> parent_n1) (bonds (h n1));
                   n2_bonds_no_parent = filter (\<lambda>bond. Some (fst bond) \<noteq> parent_n2) (bonds (h n2));
                   n1_bonds_no_parent_srt = sort_key (\<lambda>b. element (h (fst b))) n1_bonds_no_parent;
                   n2_bonds_no_parent_srt = sort_key (\<lambda>b. element (h (fst b))) n2_bonds_no_parent
               in (case try_groups
                          (\<lambda>n1bonded_node bond_type1 n2bonded_node bond_type2.
                             overlay fuel resolve h n1bonded_node n2bonded_node (Some n1) (Some n2)
                               (Some bond_type1, Some bond_type2) st use_element_type)
                          (groupby (\<lambda>bonded. element (h (fst bonded))) n1_bonds_no_parent_srt)
                          (groupby (\<lambda>bonded. element (h (fst bonded))) n2_bonds_no_parent_srt)
                          [] of
                     None \<Rightarrow> None
                   | Some (Inl e) \<Rightarrow> Some (Inl e, st)
                   | Some (Inr combinations) \<Rightarrow>
                       if length combinations = 0 then Some (Inr (Some st), st)
                       else (case resolve combinations of
                               Inl e \<Rightarrow> Some (Inl e, st)
                             | Inr best \<Rightarrow> Some (Inr (Some best), st)))))"

text \<open>A resolver for examples with one candidate: it returns the first solution.\<close>

definition first_solution :: "solutions list \<Rightarrow> error + ST" where
  "first_solution combinations =
     (case combinations of
        ((_, (_, s) # _) # _) # _ \<Rightarrow> Inr s
      | _ \<Rightarrow> Inl (Exception ''not implemented''))"

definition chain_st :: ST where
  "chain_st = SuperimposedTopology (Some [0, 1]) (Some [2, 3]) (Some []) (Some [])"

text \<open>
  A triangle \<open>C1 C2 C3\<close> with \<open>N1\<close> on \<open>C2\<close> (atoms 0 to 3), against two triangles
  \<open>C11 C12 C13\<close> and \<open>C14 C15 C16\<close> joined by the bond \<open>C13-C14\<close>, with \<open>N11\<close> on
  \<open>C14\<close> (atoms 10 to 16).  \<open>tri_st\<close> is the topology after the seed \<open>(C1, C13)\<close>,
  \<open>tri_st2\<close> after the pair \<open>(C2, C14)\<close> as well.
\<close>

definition carbon :: "string \<Rightarrow> (atom \<times> string) list \<Rightarrow> AtomNode" where
  "carbon n bs = \<lparr>name = n, atype = ''C'', element = ''C'', charge = 0, bonds = bs,
                  use_general_type = True\<rparr>"

definition nitrogen :: "string \<Rightarrow> (atom \<times> string) list \<Rightarrow> AtomNode" where
  "nitrogen n bs = \<lparr>name = n, atype = ''N'', element = ''N'', charge = 0, bonds = bs,
                    use_general_type = True\<rparr>"




section \<open>Topologies as objects: the shallow copy\<close>

text \<open>
  The attributes of a \<open>SuperimposedTopology\<close> object that hold containers are references.
  A store maps the address of a container to its contents, one component for each type of
  container; an object is the record of its addresses together with the attributes that
  are never mutated in place.
\<close>

type_synonym addr = nat

record store =
  pair_lists :: "addr \<Rightarrow> pair list"
  node_sets :: "addr \<Rightarrow> atom set"
  added_logs :: "addr \<Rightarrow> log_entry list"
  bond_dicts :: "addr \<Rightarrow> (pair \<rightharpoonup> (pair \<times> bond_types) list)"
  st_lists :: "addr \<Rightarrow> st_ref list"
  charge_logs :: "addr \<Rightarrow> (pair \<times> real) list"
  pair_logs :: "addr \<Rightarrow> pair list"
  bond_logs :: "addr \<Rightarrow> (pair \<times> pair) list"
  next_addr :: addr

record st_object =
  matched_pairs_at :: addr
  nodes_at :: addr
  nodes_added_log_at :: addr
  matched_pairs_bonds_at :: addr
  mirrors_at :: addr
  alternative_mappings_at :: addr
  removed_pairs_with_charge_difference_at :: addr
  removed_because_disjointed_cc_at :: addr
  removed_due_to_net_charge_at :: addr
  removed_because_unmatched_rings_at :: addr
  removed_because_diff_bonds_at :: addr
  attributes :: ST

text \<open>
  The value of an object in a store: the contents of its containers, and the other
  attributes as the object has them.
\<close>

definition load :: "store \<Rightarrow> st_object \<Rightarrow> ST" where
  "load s obj = (attributes obj)
     \<lparr>matched_pairs := pair_lists s (matched_pairs_at obj),
      nodes := node_sets s (nodes_at obj),
      nodes_added_log := added_logs s (nodes_added_log_at obj),
      matched_pairs_bonds := bond_dicts s (matched_pairs_bonds_at obj),
      mirrors := st_lists s (mirrors_at obj),
      alternative_mappings := st_lists s (alternative_mappings_at obj),
      removed_pairs_with_charge_difference := charge_logs s (removed_pairs_with_charge_difference_at obj),
      removed_because_disjointed_cc := pair_logs s (removed_because_disjointed_cc_at obj),
      removed_due_to_net_charge := charge_logs s (removed_due_to_net_charge_at obj),
      removed_because_unmatched_rings := pair_logs s (removed_because_unmatched_rings_at obj),
      removed_because_diff_bonds := bond_logs s (removed_because_diff_bonds_at obj)\<rparr>"

text \<open>A method of the class mutates the containers of the object in place.\<close>

definition write_back :: "st_object \<Rightarrow> ST \<Rightarrow> store \<Rightarrow> store" where
  "write_back obj v s = s
     \<lparr>pair_lists := (pair_lists s)(matched_pairs_at obj := matched_pairs v),
      node_sets := (node_sets s)(nodes_at obj := nodes v),
      added_logs := (added_logs s)(nodes_added_log_at obj := nodes_added_log v),
      bond_dicts := (bond_dicts s)(matched_pairs_bonds_at obj := matched_pairs_bonds v),
      st_lists := (st_lists s)(mirrors_at obj := mirrors v,
                               alternative_mappings_at obj := alternative_mappings v),
      charge_logs := (charge_logs s)
         (removed_pairs_with_charge_difference_at obj := removed_pairs_with_charge_difference v,
          removed_due_to_net_charge_at obj := removed_due_to_net_charge v),
      pair_logs := (pair_logs s)
         (removed_because_disjointed_cc_at obj := removed_because_disjointed_cc v,
          removed_because_unmatched_rings_at obj := removed_because_unmatched_rings v),
      bond_logs := (bond_logs s)(removed_because_diff_bonds_at obj := removed_because_diff_bonds v)\<rparr>"

definition run :: "(ST \<Rightarrow> 'a outcome) \<Rightarrow> st_object \<Rightarrow> store \<Rightarrow> (error + 'a) \<times> st_object \<times> store" where
  "run mutator obj s =
     (case mutator (load s obj) of
        (r, v) \<Rightarrow> (r, obj\<lparr>attributes := v\<rparr>, write_back obj v s))"

text \<open>
  \<open>type(self)()\<close>: the constructor without ligands allocates eleven fresh, empty containers.
\<close>

definition new_object :: "store \<Rightarrow> st_object \<times> store" where
  "new_object s =
     (let a = next_addr s;
          obj = \<lparr>matched_pairs_at = a, nodes_at = a + 1, nodes_added_log_at = a + 2,
                 matched_pairs_bonds_at = a + 3, mirrors_at = a + 4,
                 alternative_mappings_at = a + 5,
                 removed_pairs_with_charge_difference_at = a + 6,
                 removed_because_disjointed_cc_at = a + 7,
                 removed_due_to_net_charge_at = a + 8,
                 removed_because_unmatched_rings_at = a + 9,
                 removed_because_diff_bonds_at = a + 10,
                 attributes = SuperimposedTopology None None None None\<rparr>
      in (obj, (write_back obj (SuperimposedTopology None None None None) s)\<lparr>next_addr := a + 11\<rparr>))"

text \<open>
  \<open>__copy__\<close>: \<open>new_one.__dict__.update(self.__dict__)\<close> makes every attribute of the new
  object refer to the container of the original; then \<open>matched_pairs\<close>, \<open>nodes\<close>,
  \<open>nodes_added_log\<close>, \<open>matched_pairs_bonds\<close> (with each of its sets), \<open>mirrors\<close> and
  \<open>alternative_mappings\<close> are replaced by fresh copies.
\<close>

definition copy_st :: "st_object \<Rightarrow> store \<Rightarrow> st_object \<times> store" where
  "copy_st self s =
     (case new_object s of
        (_, s1) \<Rightarrow>
          let a = next_addr s1;
              new_one = self\<lparr>matched_pairs_at := a, nodes_at := a + 1,
                              nodes_added_log_at := a + 2, matched_pairs_bonds_at := a + 3,
                              mirrors_at := a + 4, alternative_mappings_at := a + 5\<rparr>
          in (new_one,
              s1\<lparr>pair_lists := (pair_lists s1)(a := pair_lists s1 (matched_pairs_at self)),
                  node_sets := (node_sets s1)(a + 1 := node_sets s1 (nodes_at self)),
                  added_logs := (added_logs s1)(a + 2 := added_logs s1 (nodes_added_log_at self)),
                  bond_dicts := (bond_dicts s1)(a + 3 := bond_dicts s1 (matched_pairs_bonds_at self)),
                  st_lists := (st_lists s1)(a + 4 := st_lists s1 (mirrors_at self),
                                              a + 5 := st_lists s1 (alternative_mappings_at self)),
                  next_addr := a + 6\<rparr>))"

text \<open>
  An object of the store: its containers are allocated, and containers of the same type
  are different objects.
\<close>

definition allocated :: "store \<Rightarrow> st_object \<Rightarrow> bool" where
  "allocated s obj \<longleftrightarrow>
     matched_pairs_at obj < next_addr s \<and> nodes_at obj < next_addr s \<and>
     nodes_added_log_at obj < next_addr s \<and> matched_pairs_bonds_at obj < next_addr s \<and>
     mirrors_at obj < next_addr s \<and> alternative_mappings_at obj < next_addr s \<and>
     removed_pairs_with_charge_difference_at obj < next_addr s \<and>
     removed_because_disjointed_cc_at obj < next_addr s \<and>
     removed_due_to_net_charge_at obj < next_addr s \<and>
     removed_because_unmatched_rings_at obj < next_addr s \<and>
     removed_because_diff_bonds_at obj < next_addr s \<and>
     mirrors_at obj \<noteq> alternative_mappings_at obj \<and>
     removed_pairs_with_charge_difference_at obj \<noteq> removed_due_to_net_charge_at obj \<and>
     removed_because_disjointed_cc_at obj \<noteq> removed_because_unmatched_rings_at obj"

text \<open>The five removal logs, and the six containers that the copy duplicates.\<close>

definition removal_logs ::
  "ST \<Rightarrow> (pair \<times> real) list \<times> pair list \<times> (pair \<times> real) list \<times> pair list \<times> (pair \<times> pair) list" where
  "removal_logs v = (removed_pairs_with_charge_difference v, removed_because_disjointed_cc v,
     removed_due_to_net_charge v, removed_because_unmatched_rings v, removed_because_diff_bonds v)"

definition own_containers ::
  "ST \<Rightarrow> pair list \<times> atom set \<times> log_entry list \<times> (pair \<rightharpoonup> (pair \<times> bond_types) list)
     \<times> st_ref list \<times> st_ref list" where
  "own_containers v = (matched_pairs v, nodes v, nodes_added_log v, matched_pairs_bonds v,
     mirrors v, alternative_mappings v)"

text \<open>
  The example topology as an object: its containers at the addresses 0 to 10.
\<close>

definition amide_object :: st_object where
  "amide_object =
     \<lparr>matched_pairs_at = 0, nodes_at = 1, nodes_added_log_at = 2, matched_pairs_bonds_at = 3,
      mirrors_at = 4, alternative_mappings_at = 5,
      removed_pairs_with_charge_difference_at = 6, removed_because_disjointed_cc_at = 7,
      removed_due_to_net_charge_at = 8, removed_because_unmatched_rings_at = 9,
      removed_because_diff_bonds_at = 10, attributes = amide_st\<rparr>"

definition amide_store :: store where
  "amide_store = write_back amide_object amide_st
     \<lparr>pair_lists = (\<lambda>_. []), node_sets = (\<lambda>_. {}), added_logs = (\<lambda>_. []),
      bond_dicts = (\<lambda>_. Map.empty), st_lists = (\<lambda>_. []), charge_logs = (\<lambda>_. []),
      pair_logs = (\<lambda>_. []), bond_logs = (\<lambda>_. []), next_addr = 11\<rparr>"

section \<open>The orchestrator\<close>

text \<open>
  What \<open>superimpose_topologies\<close> takes from libraries outside this development
  (networkx, numpy, MDAnalysis) is collected in a record of functions: the resolver of the
  kernel, the bookkeeping that files a candidate among the accepted topologies (it ranks
  mirrors by RMSD), the heuristic choice of seeds and the cycle bases (networkx), the
  alignment and the RMSD (MDAnalysis), and the connected components of a topology.
\<close>

record env =
  resolver :: "solutions list \<Rightarrow> error + ST"
  accept_candidate :: "ST \<Rightarrow> ST list \<Rightarrow> error + ST list"
  get_starting_configurations :: "atom list \<Rightarrow> atom list \<Rightarrow> (atom \<times> atom) list"
  init_nonoverlapping_cycles :: "atom list \<Rightarrow> atom list \<Rightarrow> cycle list \<times> cycle list"
  get_original_circles :: "ST \<Rightarrow> cycle list \<times> cycle list"
  get_circles :: "ST \<Rightarrow> cycle list \<times> cycle list"
  align_ligands_using_matched :: "bool \<Rightarrow> ST \<Rightarrow> error + real"
  align_mirror :: "st_ref \<Rightarrow> error + real"
  rmsd :: "ST \<Rightarrow> real"
  connected_components :: "ST \<Rightarrow> error + pair list list"

text \<open>The keyword arguments of \<open>superimpose_topologies\<close>.\<close>

record options =
  pair_charge_atol :: real
  use_charges :: bool
  use_coords :: bool
  starting_node_pairs :: "(atom \<times> atom) list option"
  force_mismatch :: "(string \<times> string) list option"
  disjoint_components :: bool
  net_charge_filter :: bool
  net_charge_threshold :: real
  redistribute_charges_over_unmatched :: bool
  align_molecules :: bool
  partial_rings_allowed :: bool
  ignore_charges_completely :: bool
  ignore_bond_types_arg :: bool
  ignore_coords :: bool
  left_coords_are_ref_arg :: bool
  use_general_type_arg :: bool
  use_only_element :: bool
  check_atom_names_unique :: bool
  starting_pairs_heuristics :: bool

definition default_options :: options where
  "default_options =
     \<lparr>pair_charge_atol = 1 / 10, use_charges = True, use_coords = True,
      starting_node_pairs = None, force_mismatch = None, disjoint_components = True,
      net_charge_filter = True, net_charge_threshold = 1 / 10,
      redistribute_charges_over_unmatched = True, align_molecules = True,
      partial_rings_allowed = True, ignore_charges_completely = False,
      ignore_bond_types_arg = True, ignore_coords = False, left_coords_are_ref_arg = True,
      use_general_type_arg = True, use_only_element = False, check_atom_names_unique = True,
      starting_pairs_heuristics = True\<rparr>"

text \<open>
  \<open>validate_charges\<close>.  \<open>np.testing.assert_almost_equal(a, d, decimal=2)\<close> raises unless
  \<open>|d - a| < 1.5e-2\<close>.  Python rounds a half to the even integer and \<open>round\<close> here rounds
  it up, but a sum that lies halfway between two integers fails the first assertion.
\<close>

definition almost_equal :: "real \<Rightarrow> real \<Rightarrow> bool" where
  "almost_equal actual desired \<longleftrightarrow> \<bar>desired - actual\<bar> < 3 / 200"

definition validate_charges :: "atoms \<Rightarrow> atom list \<Rightarrow> atom list \<Rightarrow> error + int" where
  "validate_charges h atom_list_l atom_list_right =
     (let whole_left_charge = sum_list (map (\<lambda>a. charge (h a)) atom_list_l);
          whole_right_charge = sum_list (map (\<lambda>a. charge (h a)) atom_list_right)
      in if \<not> almost_equal whole_left_charge (of_int (round whole_left_charge))
           then Inl AssertionError
         else if \<not> almost_equal whole_right_charge (of_int (round whole_right_charge))
           then Inl AssertionError
         else if \<not> almost_equal whole_left_charge whole_right_charge then Inl AssertionError
         else Inr (round whole_left_charge))"

text \<open>A loop \<open>for st in suptops: st.f()\<close>; the first exception ends it.\<close>

fun for_each :: "(ST \<Rightarrow> 'a outcome) \<Rightarrow> ST list \<Rightarrow> error + ST list" where
  "for_each f [] = Inr []"
| "for_each f (st # rest) =
     (case f st of
        (Inl e, _) \<Rightarrow> Inl e
      | (Inr _, st') \<Rightarrow>
          (case for_each f rest of Inl e \<Rightarrow> Inl e | Inr rest' \<Rightarrow> Inr (st' # rest')))"

subsection \<open>The search\<close>

text \<open>
  The loop of \<open>_superimpose_topologies\<close> over the seeds: each seed gets a fresh topology;
  a seed whose overlay is \<open>None\<close> or empty is skipped.
\<close>

definition seed_topology :: "env \<Rightarrow> options \<Rightarrow> atom list \<Rightarrow> atom list \<Rightarrow> ST" where
  "seed_topology ev opts top1_nodes top2_nodes =
     (let cycles = init_nonoverlapping_cycles ev top1_nodes top2_nodes
      in (SuperimposedTopology (Some top1_nodes) (Some top2_nodes)
            (Some (fst cycles)) (Some (snd cycles)))
         \<lparr>left_coords_are_ref := Some (left_coords_are_ref_arg opts)\<rparr>)"

fun seed_loop :: "nat \<Rightarrow> env \<Rightarrow> options \<Rightarrow> atoms \<Rightarrow> atom list \<Rightarrow> atom list
    \<Rightarrow> (atom \<times> atom) list \<Rightarrow> ST list \<Rightarrow> (error + ST list) option" where
  "seed_loop fuel ev opts h top1_nodes top2_nodes [] suptops = Some (Inr suptops)"
| "seed_loop fuel ev opts h top1_nodes top2_nodes ((node1, node2) # rest) suptops =
     (case overlay fuel (resolver ev) h node1 node2 None None (None, None)
             (seed_topology ev opts top1_nodes top2_nodes) (use_general_type_arg opts) of
        None \<Rightarrow> None
      | Some (Inl e, _) \<Rightarrow> Some (Inl e)
      | Some (Inr None, _) \<Rightarrow> seed_loop fuel ev opts h top1_nodes top2_nodes rest suptops
      | Some (Inr (Some candidate_suptop), _) \<Rightarrow>
          if len_st candidate_suptop = 0
          then seed_loop fuel ev opts h top1_nodes top2_nodes rest suptops
          else (case accept_candidate ev candidate_suptop suptops of
                  Inl e \<Rightarrow> Some (Inl e)
                | Inr suptops' \<Rightarrow>
                    seed_loop fuel ev opts h top1_nodes top2_nodes rest suptops'))"

text \<open>
  The seeds: the ones given, else the heuristic choice, else every pair of atoms.
\<close>

definition chosen_seeds :: "env \<Rightarrow> options \<Rightarrow> atom list \<Rightarrow> atom list \<Rightarrow> (atom \<times> atom) list" where
  "chosen_seeds ev opts top1_nodes top2_nodes =
     (case starting_node_pairs opts of
        Some (p # ps) \<Rightarrow> p # ps
      | _ \<Rightarrow> if starting_pairs_heuristics opts
             then get_starting_configurations ev top1_nodes top2_nodes
             else List.product top1_nodes top2_nodes)"

definition all_hydrogens :: "atoms \<Rightarrow> ST \<Rightarrow> bool" where
  "all_hydrogens h suptop \<longleftrightarrow> list_all (\<lambda>(node1, _). atype (h node1) = ''H'') (matched_pairs suptop)"

definition sides_respected :: "atom list \<Rightarrow> atom list \<Rightarrow> ST \<Rightarrow> bool" where
  "sides_respected top1_nodes top2_nodes suptop \<longleftrightarrow>
     list_all (\<lambda>(node1, node2). node1 \<in> set top1_nodes \<and> node2 \<in> set top2_nodes)
       (matched_pairs suptop)"

definition private_superimpose_topologies ::
  "nat \<Rightarrow> env \<Rightarrow> options \<Rightarrow> atoms \<Rightarrow> atom list \<Rightarrow> atom list \<Rightarrow> (error + ST list) option" where
  "private_superimpose_topologies fuel ev opts h top1_nodes top2_nodes =
     (case seed_loop fuel ev opts h top1_nodes top2_nodes
             (chosen_seeds ev opts top1_nodes top2_nodes) [] of
        None \<Rightarrow> None
      | Some (Inl e) \<Rightarrow> Some (Inl e)
      | Some (Inr found) \<Rightarrow>
          let suptops = filter (\<lambda>suptop. \<not> all_hydrogens h suptop) found
          in if list_all (sides_respected top1_nodes top2_nodes) suptops
             then Some (Inr suptops) else Some (Inl AssertionError))"

subsection \<open>The filters that change atoms\<close>

definition is_cc_cd :: "string \<Rightarrow> string \<Rightarrow> bool" where
  "is_cc_cd t1 t2 \<longleftrightarrow> {t1, t2} = {''CC'', ''CD''}"

fun cccd_loop :: "pair list \<Rightarrow> pair list \<Rightarrow> ST \<Rightarrow> atoms \<Rightarrow> error + atoms" where
  "cccd_loop [] corrected_pairs st h = Inr h"
| "cccd_loop ((A1, A2) # rest) corrected_pairs st h =
     (if \<not> is_cc_cd (atype (h A1)) (atype (h A2)) \<or> (A1, A2) \<in> set corrected_pairs
      then cccd_loop rest corrected_pairs st h
      else
        (case matched_pairs_bonds st (A1, A2) of
           None \<Rightarrow> Inl KeyError
         | Some bs \<Rightarrow>
             (case filter (\<lambda>(b1, b2). is_cc_cd (atype (h b1)) (atype (h b2))) (map fst bs) of
                [] \<Rightarrow> Inl (Exception ''Error(?): Found CC-CD mismatch without a neighbouring CD-CC? Investigate'')
              | [(b1, b2)] \<Rightarrow>
                  if atype (h A2) = atype (h A1) \<and> atype (h b2) = atype (h b1)
                  then cccd_loop rest corrected_pairs st h
                  else
                    let h1 = h(A2 := (h A2)\<lparr>atype := atype (h A1)\<rparr>);
                        h2 = h1(b2 := (h1 b2)\<lparr>atype := atype (h1 b1)\<rparr>)
                    in cccd_loop rest (corrected_pairs @ [(A1, A2), (b1, b2)]) st h2
              | _ \<Rightarrow> Inl (Exception ''Error: Problem with the CC-CD to CD-CC pair mapping. There appears to be a double bond twice in a raw?. ''))))"

definition match_cccd_to_cdcc :: "atoms \<Rightarrow> ST \<Rightarrow> error + atoms" where
  "match_cccd_to_cdcc h st = cccd_loop (matched_pairs st) [] st h"

fun match_cccd_all :: "atoms \<Rightarrow> ST list \<Rightarrow> error + atoms" where
  "match_cccd_all h [] = Inr h"
| "match_cccd_all h (st # rest) =
     (case match_cccd_to_cdcc h st of Inl e \<Rightarrow> Inl e | Inr h' \<Rightarrow> match_cccd_all h' rest)"

text \<open>\<open>redistribute_charges\<close>: average the charges of each pair, spread the drift of each
  side over its unmatched atoms.\<close>

fun average_charges :: "pair list \<Rightarrow> atoms \<Rightarrow> real \<Rightarrow> real \<Rightarrow> atoms \<times> real \<times> real" where
  "average_charges [] h l_delta_charge_total r_delta_charge_total =
     (h, l_delta_charge_total, r_delta_charge_total)"
| "average_charges ((left, r) # rest) h l_delta_charge_total r_delta_charge_total =
     (if charge (h left) \<noteq> charge (h r) then
        let avg_charge = (charge (h left) + charge (h r)) / 2;
            l_total = l_delta_charge_total + (charge (h left) - avg_charge);
            r_total = r_delta_charge_total + (charge (h r) - avg_charge);
            h1 = h(left := (h left)\<lparr>charge := avg_charge\<rparr>);
            h2 = h1(r := (h1 r)\<lparr>charge := avg_charge\<rparr>)
        in average_charges rest h2 l_total r_total
      else average_charges rest h l_delta_charge_total r_delta_charge_total)"

fun add_charge :: "real \<Rightarrow> atom list \<Rightarrow> atoms \<Rightarrow> atoms" where
  "add_charge delta [] h = h"
| "add_charge delta (a # rest) h = add_charge delta rest (h(a := (h a)\<lparr>charge := charge (h a) + delta\<rparr>))"

definition get_disappearing_atoms :: "atom list \<Rightarrow> ST \<Rightarrow> atom list" where
  "get_disappearing_atoms t1 st = filter (\<lambda>a. a \<notin> fst ` set (matched_pairs st)) t1"

definition get_appearing_atoms :: "atom list \<Rightarrow> ST \<Rightarrow> atom list" where
  "get_appearing_atoms t2 st = filter (\<lambda>a. a \<notin> snd ` set (matched_pairs st)) t2"

definition redistribute_charges :: "atoms \<Rightarrow> ST \<Rightarrow> error + atoms" where
  "redistribute_charges h st =
     (case (top1 st, top2 st) of
        (Some t1, Some t2) \<Rightarrow>
          (case validate_charges h t1 t2 of
             Inl e \<Rightarrow> Inl e
           | Inr _ \<Rightarrow>
               (case average_charges (matched_pairs st) h 0 0 of
                  (h1, l_delta_charge_total, r_delta_charge_total) \<Rightarrow>
                    let l_unmatched = get_disappearing_atoms t1 st;
                        r_unmatched = get_appearing_atoms t2 st;
                        l_delta_per_atom =
                          (if length l_unmatched \<noteq> 0
                           then l_delta_charge_total / real (length l_unmatched) else 0);
                        r_delta_per_atom =
                          (if length r_unmatched \<noteq> 0
                           then r_delta_charge_total / real (length r_unmatched) else 0);
                        h2 = add_charge r_delta_per_atom r_unmatched
                               (add_charge l_delta_per_atom l_unmatched h1)
                    in (case validate_charges h2 t1 t2 of
                          Inl e \<Rightarrow> Inl e
                        | Inr _ \<Rightarrow> Inr h2)))
      | _ \<Rightarrow> Inl TypeError)"

subsection \<open>Connected components and atom ids\<close>

text \<open>
  \<open>largest_cc_survives\<close>: the components come from networkx; the smaller ones, and all
  but the first of the largest, are removed pair by pair.
\<close>

fun remove_component :: "pair list \<Rightarrow> ST \<Rightarrow> unit outcome" where
  "remove_component [] st = (Inr (), st)"
| "remove_component (atom_tuple # rest) st =
     (case remove_node_pair atom_tuple st of
        (Inl e, st') \<Rightarrow> (Inl e, st')
      | (Inr _, st') \<Rightarrow>
          remove_component rest
            (st'\<lparr>removed_because_disjointed_cc := removed_because_disjointed_cc st' @ [atom_tuple]\<rparr>))"

fun remove_components :: "pair list list \<Rightarrow> ST \<Rightarrow> unit outcome" where
  "remove_components [] st = (Inr (), st)"
| "remove_components (cc # rest) st =
     (case remove_component cc st of
        (Inl e, st') \<Rightarrow> (Inl e, st')
      | (Inr _, st') \<Rightarrow> remove_components rest st')"

definition largest_cc_survives :: "env \<Rightarrow> ST \<Rightarrow> (nat \<times> pair list list) outcome" where
  "largest_cc_survives ev st =
     (case connected_components ev st of
        Inl e \<Rightarrow> (Inl e, st)
      | Inr [] \<Rightarrow> (Inl ValueError, st)
      | Inr (c # cs) \<Rightarrow>
          let ccs = c # cs;
              largest_cc = fold max (map length cs) (length c);
              remove_ccs =
                (if length ccs > 1
                 then rev (filter (\<lambda>cc. length cc < largest_cc) ccs)
                      @ tl (filter (\<lambda>cc. \<not> length cc < largest_cc) ccs)
                 else [])
          in (case remove_components remove_ccs st of
                (Inl e, st') \<Rightarrow> (Inl e, st')
              | (Inr _, st') \<Rightarrow> (Inr (largest_cc, remove_ccs), st')))"

text \<open>\<open>assign_atoms_ids\<close>: one id for each pair, then one for each unmatched atom.\<close>

fun ids_for_pairs :: "pair list \<Rightarrow> nat \<Rightarrow> ((atom + pair) \<rightharpoonup> nat) \<Rightarrow> nat \<times> ((atom + pair) \<rightharpoonup> nat)" where
  "ids_for_pairs [] id_counter ids = (id_counter, ids)"
| "ids_for_pairs ((left_atom, right_atom) # rest) id_counter ids =
     ids_for_pairs rest (id_counter + 1)
       (ids(Inl left_atom \<mapsto> id_counter, Inl right_atom \<mapsto> id_counter,
            Inr (left_atom, right_atom) \<mapsto> id_counter))"

fun ids_for_atoms :: "atom set \<Rightarrow> atom list \<Rightarrow> nat \<Rightarrow> ((atom + pair) \<rightharpoonup> nat) \<Rightarrow> nat \<times> ((atom + pair) \<rightharpoonup> nat)" where
  "ids_for_atoms matched [] id_counter ids = (id_counter, ids)"
| "ids_for_atoms matched (node # rest) id_counter ids =
     (if node \<notin> matched
      then ids_for_atoms matched rest (id_counter + 1) (ids(Inl node \<mapsto> id_counter))
      else ids_for_atoms matched rest id_counter ids)"

definition assign_atoms_ids :: "nat \<Rightarrow> ST \<Rightarrow> nat outcome" where
  "assign_atoms_ids id_start st =
     (case ids_for_pairs (matched_pairs st) id_start Map.empty of
        (c1, ids1) \<Rightarrow>
          (case top1 st of
             None \<Rightarrow>
               (Inl TypeError,
                st\<lparr>internal_ids := Some ids1,
                    unique_atom_count := unique_atom_count st + (c1 - id_start)\<rparr>)
           | Some t1 \<Rightarrow>
               (case ids_for_atoms (nodes st) t1 c1 ids1 of
                  (c2, ids2) \<Rightarrow>
                    (case top2 st of
                       None \<Rightarrow>
                         (Inl TypeError,
                          st\<lparr>internal_ids := Some ids2,
                              unique_atom_count := unique_atom_count st + (c2 - id_start)\<rparr>)
                     | Some t2 \<Rightarrow>
                         (case ids_for_atoms (nodes st) t2 c2 ids2 of
                            (c3, ids3) \<Rightarrow>
                              (Inr c3,
                               st\<lparr>internal_ids := Some ids3,
                                   unique_atom_count := unique_atom_count st + (c3 - id_start)\<rparr>))))))"

fun assign_all :: "nat \<Rightarrow> ST list \<Rightarrow> error + ST list" where
  "assign_all start_atom_id [] = Inr []"
| "assign_all start_atom_id (suptop # rest) =
     (case assign_atoms_ids start_atom_id suptop of
        (Inl e, _) \<Rightarrow> Inl e
      | (Inr next_id, suptop') \<Rightarrow>
          (case assign_all (next_id + 1) rest of
             Inl e \<Rightarrow> Inl e
           | Inr rest' \<Rightarrow> Inr (suptop' # rest')))"

subsection \<open>The pipeline\<close>

definition and_then :: "(error + 'a) option \<Rightarrow> ('a \<Rightarrow> (error + 'b) option) \<Rightarrow> (error + 'b) option" where
  "and_then r f = (case r of None \<Rightarrow> None | Some (Inl e) \<Rightarrow> Some (Inl e) | Some (Inr x) \<Rightarrow> f x)"

text \<open>The net-charge filter visits the topologies in reverse and drops the emptied ones.\<close>

fun net_charge_filter_loop :: "atoms \<Rightarrow> real \<Rightarrow> ST list \<Rightarrow> ST list \<Rightarrow> (error + ST list) option" where
  "net_charge_filter_loop h threshold [] kept = Some (Inr kept)"
| "net_charge_filter_loop h threshold (suptop # rest) kept =
     (case net_charge_loop h threshold suptop of
        None \<Rightarrow> None
      | Some (Inl e, _) \<Rightarrow> Some (Inl e)
      | Some (Inr dropped, suptop') \<Rightarrow>
          net_charge_filter_loop h threshold rest (if dropped then kept else suptop' # kept))"

text \<open>
  The start of \<open>superimpose_topologies\<close>: validation, the search, and the exception raised
  when the search found nothing.
\<close>

definition no_superimposition :: error where
  "no_superimposition = Exception (''Error: Did not find a single superimposition state.''
     @ ''Error: Not even a single atom is common across the two molecules? Something must be wrong. '')"

definition validated :: "options \<Rightarrow> atoms \<Rightarrow> atom list \<Rightarrow> atom list \<Rightarrow> error + unit" where
  "validated opts h top1_nodes top2_nodes =
     (case (if \<not> ignore_charges_completely opts
            then validate_charges h top1_nodes top2_nodes else Inr 0) of
        Inl e \<Rightarrow> Inl e
      | Inr _ \<Rightarrow>
          if check_atom_names_unique opts
             \<and> set (map (\<lambda>a. name (h a)) top1_nodes) \<inter> set (map (\<lambda>a. name (h a)) top2_nodes) \<noteq> {}
          then Inl AssertionError
          else Inr ())"

definition found_suptops ::
  "nat \<Rightarrow> env \<Rightarrow> options \<Rightarrow> atoms \<Rightarrow> atom list \<Rightarrow> atom list \<Rightarrow> (error + ST list) option" where
  "found_suptops fuel ev opts h top1_nodes top2_nodes =
     and_then (Some (validated opts h top1_nodes top2_nodes)) (\<lambda>_.
     and_then (private_superimpose_topologies fuel ev opts h top1_nodes top2_nodes) (\<lambda>suptops.
       if suptops = [] then Some (Inl no_superimposition) else Some (Inr suptops)))"

text \<open>The filters from the bond-type flag to the choice of the largest component.\<close>

definition take_largest :: "ST \<Rightarrow> ST \<Rightarrow> ST" where
  "take_largest x y = (if len_st x > len_st y then x else y)"

definition filter_cascade ::
  "env \<Rightarrow> options \<Rightarrow> atoms \<Rightarrow> atom list \<Rightarrow> atom list \<Rightarrow> ST list \<Rightarrow> (error + atoms \<times> ST list) option" where
  "filter_cascade ev opts h top1_nodes top2_nodes found =
     (let suptops0 = map (\<lambda>st. st\<lparr>ignore_bond_types := ignore_bond_types_arg opts,
                                    top1 := Some top1_nodes, top2 := Some top2_nodes\<rparr>) found
      in
     and_then (Some (if align_molecules opts
                     then (case suptops0 of
                             [] \<Rightarrow> Inl TypeError
                           | st # rest \<Rightarrow>
                               align_ligands_using_matched ev False
                                 (fold (\<lambda>y x. take_largest x y) rest st))
                     else Inr 0)) (\<lambda>_.
     and_then (Some (match_cccd_all h suptops0)) (\<lambda>h1.
     and_then (Some (if \<not> use_only_element opts
                     then for_each (matched_atom_types_are_the_same h1) suptops0
                     else Inr suptops0)) (\<lambda>suptops1.
     and_then (Some (if use_charges opts \<and> \<not> ignore_charges_completely opts
                     then for_each (refine_against_charges h1 (pair_charge_atol opts) False) suptops1
                     else Inr suptops1)) (\<lambda>suptops2.
     and_then (Some (case force_mismatch opts of
                       Some (_ # _) \<Rightarrow> if suptops2 \<noteq> [] then Inl AttributeError else Inr ()
                     | _ \<Rightarrow> Inr ())) (\<lambda>_.
     and_then (if net_charge_filter opts \<and> \<not> ignore_charges_completely opts
               then net_charge_filter_loop h1 (net_charge_threshold opts) (rev suptops2) []
               else Some (Inr suptops2)) (\<lambda>suptops3.
     and_then (Some (if \<not> partial_rings_allowed opts
                     then for_each (\<lambda>st. enforce_no_partial_rings
                              (fst (get_original_circles ev st)) (snd (get_original_circles ev st))
                              (fst (get_circles ev st)) (snd (get_circles ev st)) st) suptops3
                     else Inr suptops3)) (\<lambda>suptops4.
     let suptops5 = filter (\<lambda>st. len_st st \<noteq> 0) suptops4 in
     if \<not> disjoint_components opts then
       and_then (Some (for_each (largest_cc_survives ev) suptops5)) (\<lambda>suptops6.
         let suptops7 =
               (case suptops6 of
                  st # st' # rest \<Rightarrow>
                    (let max_len = fold max (map len_st (st' # rest)) (len_st st);
                         longest = filter (\<lambda>st. \<not> len_st st < max_len) suptops6
                     in if length longest > 1 then take 1 longest else longest)
                | _ \<Rightarrow> suptops6)
         in if length suptops7 = 1 then Some (Inr (h1, suptops7)) else Some (Inl AssertionError))
     else Some (Inr (h1, suptops5))))))))))"

text \<open>
  The redistribution of charges, with the function to call for it as an argument.
\<close>

definition redistribution :: "(atoms \<Rightarrow> ST \<Rightarrow> error + atoms) \<Rightarrow> options \<Rightarrow> atoms \<Rightarrow> ST list \<Rightarrow> error + atoms" where
  "redistribution redistribute opts h suptops =
     (if redistribute_charges_over_unmatched opts \<and> \<not> ignore_charges_completely opts
         \<and> disjoint_components opts
      then (if length suptops > 1 then Inl NotImplementedError
            else (case suptops of [] \<Rightarrow> Inl IndexError | st # _ \<Rightarrow> redistribute h st))
      else Inr h)"

text \<open>The end: atom ids, the order by RMSD, the final alignment.\<close>

fun align_mirrors :: "env \<Rightarrow> st_ref list \<Rightarrow> error + unit" where
  "align_mirrors ev [] = Inr ()"
| "align_mirrors ev (mirror # rest) =
     (case align_mirror ev mirror of Inl e \<Rightarrow> Inl e | Inr mirror_rmsd \<Rightarrow> align_mirrors ev rest)"

fun final_alignment :: "env \<Rightarrow> ST list \<Rightarrow> error + unit" where
  "final_alignment ev [] = Inr ()"
| "final_alignment ev (st # rest) =
     (case align_ligands_using_matched ev False st of
        Inl e \<Rightarrow> Inl e
      | Inr main_rmsd \<Rightarrow>
          (case align_mirrors ev (mirrors st) of
             Inl e \<Rightarrow> Inl e
           | Inr _ \<Rightarrow>
               (case align_ligands_using_matched ev True st of
                  Inl e \<Rightarrow> Inl e
                | Inr _ \<Rightarrow> final_alignment ev rest)))"

definition finish :: "env \<Rightarrow> options \<Rightarrow> atoms \<Rightarrow> ST list \<Rightarrow> (error + atoms \<times> ST list) option" where
  "finish ev opts h suptops =
     and_then (Some (assign_all 1 suptops)) (\<lambda>suptops1.
     and_then (Some (if list_ex (\<lambda>st. len_st st = 0) suptops1 then Inl AssertionError
                     else Inr (sort_key (rmsd ev) suptops1))) (\<lambda>suptops2.
     and_then (Some (if align_molecules opts then final_alignment ev suptops2 else Inr ())) (\<lambda>_.
       Some (Inr (h, suptops2)))))"

definition filtered ::
  "nat \<Rightarrow> env \<Rightarrow> options \<Rightarrow> atoms \<Rightarrow> atom list \<Rightarrow> atom list \<Rightarrow> (error + atoms \<times> ST list) option" where
  "filtered fuel ev opts h top1_nodes top2_nodes =
     and_then (found_suptops fuel ev opts h top1_nodes top2_nodes)
       (filter_cascade ev opts h top1_nodes top2_nodes)"

text \<open>
  \<open>superimpose_topologies\<close>, with the function it calls as \<open>redistribute_charges\<close> as an
  argument, so that the call can be observed.
\<close>

definition superimpose_topologies_with ::
  "(atoms \<Rightarrow> ST \<Rightarrow> error + atoms) \<Rightarrow> nat \<Rightarrow> env \<Rightarrow> options \<Rightarrow> atoms \<Rightarrow> atom list \<Rightarrow> atom list
     \<Rightarrow> (error + atoms \<times> ST list) option" where
  "superimpose_topologies_with redistribute fuel ev opts h top1_nodes top2_nodes =
     and_then (filtered fuel ev opts h top1_nodes top2_nodes) (\<lambda>(h1, suptops).
     and_then (Some (redistribution redistribute opts h1 suptops)) (\<lambda>h2.
       finish ev opts h2 suptops))"

definition superimpose_topologies ::
  "nat \<Rightarrow> env \<Rightarrow> options \<Rightarrow> atoms \<Rightarrow> atom list \<Rightarrow> atom list \<Rightarrow> (error + atoms \<times> ST list) option" where
  "superimpose_topologies = superimpose_topologies_with redistribute_charges"

text \<open>
  Library functions for examples without rings, with at most one candidate for each seed
  and with all atoms at one point.
\<close>

definition example_env :: env where
  "example_env =
     \<lparr>resolver = first_solution,
      accept_candidate = (\<lambda>candidate suptops. Inr (suptops @ [candidate])),
      get_starting_configurations = List.product,
      init_nonoverlapping_cycles = (\<lambda>_ _. ([], [])),
      get_original_circles = (\<lambda>_. ([], [])),
      get_circles = (\<lambda>_. ([], [])),
      align_ligands_using_matched = (\<lambda>_ _. Inr 0),
      align_mirror = (\<lambda>_. Inr 0),
      rmsd = (\<lambda>_. 0),
      connected_components = (\<lambda>st. Inr [matched_pairs st])\<rparr>"

definition tripwire :: "atoms \<Rightarrow> ST \<Rightarrow> error + atoms" where
  "tripwire h st = Inl (Exception ''redistribute_charges was called'')"

definition cn_atoms :: atoms where
  "cn_atoms a =
     (if a = 0 then carbon ''C1'' [(1, ''1'')]
      else if a = 1 then carbon ''C2'' [(0, ''1'')]
      else if a = 2 then nitrogen ''N11'' [(3, ''1'')]
      else nitrogen ''N12'' [(2, ''1'')])"

definition seeded_options :: options where
  "seeded_options = default_options\<lparr>starting_node_pairs := Some [(0, 2)]\<rparr>"

text \<open>A seed is barren when its overlay is \<open>None\<close> or an empty topology.\<close>

definition barren :: "nat \<Rightarrow> env \<Rightarrow> options \<Rightarrow> atoms \<Rightarrow> atom list \<Rightarrow> atom list \<Rightarrow> atom \<times> atom \<Rightarrow> bool" where
  "barren fuel ev opts h top1_nodes top2_nodes seed =
     (case overlay fuel (resolver ev) h (fst seed) (snd seed) None None (None, None)
             (seed_topology ev opts top1_nodes top2_nodes) (use_general_type_arg opts) of
        Some (Inr None, _) \<Rightarrow> True
      | Some (Inr (Some candidate_suptop), _) \<Rightarrow> len_st candidate_suptop = 0
      | _ \<Rightarrow> False)"

section \<open>Reachable states\<close>

text \<open>
  The states a topology object can be in, with the atoms as they then are.  The
  constructor builds the first state.  The source assigns \<open>matched_pairs\<close> in the
  constructor and in \<open>__copy__\<close> only (a copy has the state of its original), and changes
  the list in \<open>add_node_pair\<close> and \<open>remove_node_pair\<close> only.  Every other write is to
  another attribute: \<open>set_tops\<close>, \<open>_init_nonoverlapping_cycles\<close>, \<open>add_mirror_suptop\<close>,
  \<open>add_alternative_mapping\<close>, the assignments to \<open>left_coords_are_ref\<close> in the search
  and to \<open>ignore_bond_types\<close> in \<open>superimpose_topologies\<close>, the removal logs.  The
  mutating methods are listed one by one, each with the state it leaves when it returns
  or raises part-way; the rule \<open>attribute_written\<close> stands for the other writes.  Atoms
  change as well (\<open>redistribute_charges\<close> writes charges, \<open>match_cccd_to_cdcc\<close> types,
  the alignment positions), but nothing renames an atom of a topology.
\<close>

inductive reachable :: "atoms \<Rightarrow> ST \<Rightarrow> bool" where
  constructed: "reachable h (SuperimposedTopology t1 t2 lc rc)"
| attribute_written:
    "reachable h st \<Longrightarrow> matched_pairs st' = matched_pairs st \<Longrightarrow> reachable h st'"
| atom_written:
    "reachable h st \<Longrightarrow> (\<lambda>a. name (h' a)) = (\<lambda>a. name (h a)) \<Longrightarrow> reachable h' st"
| after_add_node_pair: "reachable h st \<Longrightarrow> reachable h (snd (add_node_pair h p st))"
| after_remove_node_pair: "reachable h st \<Longrightarrow> reachable h (snd (remove_node_pair p st))"
| after_link_pairs: "reachable h st \<Longrightarrow> reachable h (snd (link_pairs p ps st))"
| after_link_with_parent: "reachable h st \<Longrightarrow> reachable h (snd (link_with_parent p q bt st))"
| after_merge: "reachable h st \<Longrightarrow> reachable h (snd (merge h other st))"
| after_remove_worst_charge_match:
    "reachable h st \<Longrightarrow> reachable h (snd (remove_worst_charge_match h st))"
| after_remove_attached_hydrogens:
    "reachable h st \<Longrightarrow> reachable h (snd (remove_attached_hydrogens h p st))"
| after_refine_against_charges:
    "reachable h st \<Longrightarrow> reachable h (snd (refine_against_charges h atol rdh st))"
| after_matched_atom_types_are_the_same:
    "reachable h st \<Longrightarrow> reachable h (snd (matched_atom_types_are_the_same h st))"
| after_enforce_no_partial_rings:
    "reachable h st \<Longrightarrow> reachable h (snd (enforce_no_partial_rings lo ro li ri st))"
| after_largest_cc_survives:
    "reachable h st \<Longrightarrow> reachable h (snd (largest_cc_survives ev st))"
| after_assign_atoms_ids:
    "reachable h st \<Longrightarrow> reachable h (snd (assign_atoms_ids id_start st))"

definition sorted_by_left_name :: "atoms \<Rightarrow> ST \<Rightarrow> bool" where
  "sorted_by_left_name h st \<longleftrightarrow> sorted (map (\<lambda>p. name (h (fst p))) (matched_pairs st))"

text \<open>The topologies among which the resolver of the kernel chooses.\<close>

definition candidates :: "solutions list \<Rightarrow> ST list" where
  "candidates combinations =
     concat (map (\<lambda>atom_type_solutions.
               concat (map (\<lambda>(n1bonded_node, solutions_for_this_left_atom).
                             map snd solutions_for_this_left_atom) atom_type_solutions))
             combinations)"

text \<open>
  The two library-dependent functions that hand topologies on.  The resolver returns one
  of its candidates, or a copy of one merged with others (\<open>long_merge\<close>), with mirrors
  and alternative mappings noted on it (\<open>extract_best_suptop\<close>); the bookkeeping of the
  search drops and appends topologies and notes mirrors and alternative mappings.  Both
  keep within the reachable states.
\<close>

definition library_closed :: "atoms \<Rightarrow> env \<Rightarrow> bool" where
  "library_closed h ev \<longleftrightarrow>
     (\<forall>combinations best.
        list_all (reachable h) (candidates combinations) \<longrightarrow>
        resolver ev combinations = Inr best \<longrightarrow> reachable h best) \<and>
     (\<forall>candidate suptops suptops'.
        reachable h candidate \<longrightarrow> list_all (reachable h) suptops \<longrightarrow>
        accept_candidate ev candidate suptops = Inr suptops' \<longrightarrow>
        list_all (reachable h) suptops')"

section \<open>Properties\<close>

subsection \<open>The macrocycle exemption of the partial-ring filter\<close>

lemma list_remove_cycle_Inr:
  "list_remove_cycle c ds = Inr ds' \<Longrightarrow> set ds' \<subseteq> set ds \<and> (\<exists>d \<in> set ds. set d = set c)"
  by (induction c ds arbitrary: ds' rule: list_remove_cycle.induct)
     (auto split: if_splits sum.splits)

lemma avoids_cong: "set d = set c \<Longrightarrow> avoids p d = avoids p c"
  by (simp add: avoids_def)

lemma accept_circles_avoid:
  assumes "accept_circles lm rm cs = Inr cs'" and "circles_avoid p cs"
  shows "circles_avoid p cs'"
proof -
  from assms(1) obtain lms rms lcs rcs where
    l: "list_remove_cycle lm (l_circles cs) = Inr lcs" and
    r: "list_remove_cycle rm (r_circles cs) = Inr rcs" and
    cs': "cs' = cs\<lparr>l_matched_circles := lms, r_matched_circles := rms,
                  l_circles := lcs, r_circles := rcs,
                  correct_circles := correct_circles cs @ [(lm, rm)]\<rparr>"
    by (auto simp: accept_circles_def split: sum.splits)
  from list_remove_cycle_Inr[OF l] obtain d where
    ls: "set lcs \<subseteq> set (l_circles cs)" and d: "d \<in> set (l_circles cs)" "set d = set lm"
    by blast
  from list_remove_cycle_Inr[OF r] obtain e where
    rs: "set rcs \<subseteq> set (r_circles cs)" and e: "e \<in> set (r_circles cs)" "set e = set rm"
    by blast
  have "avoids p lm" using assms(2) d avoids_cong[of d lm p] by (auto simp: circles_avoid_def)
  moreover have "avoids p rm" using assms(2) e avoids_cong[of e rm p] by (auto simp: circles_avoid_def)
  ultimately show ?thesis using assms(2) ls rs cs'
    by (auto simp: circles_avoid_def)
qed

lemma match_inner_avoid:
  "match_inner st lm rms cs = Inr cs' \<Longrightarrow> circles_avoid p cs \<Longrightarrow> circles_avoid p cs'"
proof (induction st lm rms cs rule: match_inner.induct)
  case (1 st lm cs)
  then show ?case by simp
next
  case (2 st lm rm rest cs)
  then show ?case
    by (auto split: sum.splits bool.splits dest: accept_circles_avoid)
qed

lemma match_outer_avoid:
  "match_outer st lms cs = Inr cs' \<Longrightarrow> circles_avoid p cs \<Longrightarrow> circles_avoid p cs'"
proof (induction st lms cs rule: match_outer.induct)
  case (1 st cs)
  then show ?case by simp
next
  case (2 st lm rest cs)
  then show ?case
    by (auto split: sum.splits dest: match_inner_avoid)
qed

lemma get_pair_with_atom_Some:
  "get_pair_with_atom st a = Some q \<Longrightarrow> fst q = a \<or> snd q = a"
  by (auto simp: get_pair_with_atom_def find_Some_iff)

lemma remove_node_pair_keeps:
  "p \<in> set (matched_pairs st) \<Longrightarrow> q \<noteq> p \<Longrightarrow> p \<in> set (matched_pairs (snd (remove_node_pair q st)))"
  by (simp add: remove_node_pair_matched_pairs)

lemma remove_ring_atoms_keeps:
  "p \<in> set (matched_pairs st) \<Longrightarrow> fst p \<notin> set as \<Longrightarrow> snd p \<notin> set as \<Longrightarrow>
     p \<in> set (matched_pairs (snd (remove_ring_atoms as acc st)))"
proof (induction as acc st rule: remove_ring_atoms.induct)
  case (1 removed_pairs st)
  then show ?case by simp
next
  case (2 a rest removed_pairs st)
  show ?case
  proof (cases "contains_node st a")
    case False
    with 2 show ?thesis by simp
  next
    case True
    show ?thesis
    proof (cases "get_pair_with_atom st a")
      case None
      with True 2 show ?thesis by simp
    next
      case (Some q)
      then have "q \<noteq> p" using get_pair_with_atom_Some[OF Some] "2.prems" by auto
      obtain r st' where rm: "remove_node_pair q st = (r, st')"
        by (cases "remove_node_pair q st")
      have k: "p \<in> set (matched_pairs st')"
        using remove_node_pair_keeps[OF "2.prems"(1) \<open>q \<noteq> p\<close>] rm by simp
      show ?thesis
      proof (cases r)
        case (Inl e)
        with True Some rm k show ?thesis by simp
      next
        case (Inr u)
        have "p \<in> set (matched_pairs (snd (remove_ring_atoms rest (removed_pairs @ [q])
                 (st'\<lparr>removed_because_unmatched_rings := removed_because_unmatched_rings st' @ [q]\<rparr>))))"
          using "2.IH"(1)[OF True Some rm[symmetric] Inr] k "2.prems" by simp
        with True Some rm Inr show ?thesis by simp
      qed
    qed
  qed
qed

lemma remove_unmatched_from_keeps:
  "p \<in> set (matched_pairs st) \<Longrightarrow> \<forall>c \<in> set cs. avoids p c \<Longrightarrow>
     p \<in> set (matched_pairs (snd (remove_unmatched_ring_atoms_from cs acc st)))"
proof (induction cs acc st rule: remove_unmatched_ring_atoms_from.induct)
  case (1 removed_pairs st)
  then show ?case by simp
next
  case (2 c rest removed_pairs st)
  obtain r st' where rm: "remove_ring_atoms (remdups c) removed_pairs st = (r, st')"
    by (cases "remove_ring_atoms (remdups c) removed_pairs st")
  have k: "p \<in> set (matched_pairs st')"
    using remove_ring_atoms_keeps[OF "2.prems"(1), of "remdups c" removed_pairs] "2.prems"(2) rm
    by (simp add: avoids_def)
  show ?case
  proof (cases r)
    case (Inl e)
    with rm k show ?thesis by simp
  next
    case (Inr rem')
    with "2.IH"[OF rm[symmetric] Inr k] "2.prems"(2) rm show ?thesis by simp
  qed
qed

lemma readd_affected_avoid:
  "readd_affected correct lrem rrem (lcs, rcs) = (lcs', rcs') \<Longrightarrow>
     \<forall>(l, r) \<in> set correct. avoids p l \<and> avoids p r \<Longrightarrow>
     \<forall>c \<in> set lcs \<union> set rcs. avoids p c \<Longrightarrow>
     \<forall>c \<in> set lcs' \<union> set rcs'. avoids p c"
proof (induction correct lrem rrem "(lcs, rcs)" arbitrary: lcs rcs rule: readd_affected.induct)
  case (1 l_removed r_removed lcs rcs)
  then show ?case by simp
next
  case (2 l_circle r_circle rest l_removed r_removed lcs rcs)
  show ?case
  proof (cases "list_ex (\<lambda>(l_atom, r_atom). l_atom \<in> set l_circle) l_removed
                \<or> list_ex (\<lambda>(l_atom, r_atom). r_atom \<in> set r_circle) r_removed")
    case True
    have "\<forall>c \<in> set (lcs @ [l_circle]) \<union> set (rcs @ [r_circle]). avoids p c"
      using "2.prems"(2,3) by auto
    with "2.hyps"(1)[OF refl refl True] True "2.prems"(1,2) show ?thesis
      by (simp add: Let_def)
  next
    case False
    with "2.hyps"(2)[OF refl refl False] "2.prems" show ?thesis
      by (simp add: Let_def)
  qed
qed

lemma rings_loop_keeps:
  "p \<in> set (matched_pairs st) \<Longrightarrow>
     \<forall>(l, r) \<in> set correct. avoids p l \<and> avoids p r \<Longrightarrow>
     \<forall>c \<in> set lcs \<union> set rcs. avoids p c \<Longrightarrow>
     p \<in> set (matched_pairs (snd (rings_loop lcs rcs correct st)))"
proof (induction lcs rcs correct st rule: rings_loop.induct)
  case (1 lcs rcs correct st)
  obtain r1 st1 where a1: "remove_unmatched_ring_atoms lcs st = (r1, st1)"
    by (cases "remove_unmatched_ring_atoms lcs st")
  have k1: "p \<in> set (matched_pairs st1)"
    using a1 remove_unmatched_from_keeps[OF "1.prems"(1), of lcs "[]"] "1.prems"(3)
    by (simp add: remove_unmatched_ring_atoms_def)
  obtain r2 st2 where a2: "remove_unmatched_ring_atoms rcs st1 = (r2, st2)"
    by (cases "remove_unmatched_ring_atoms rcs st1")
  have k2: "p \<in> set (matched_pairs st2)"
    using a2 remove_unmatched_from_keeps[OF k1, of rcs "[]"] "1.prems"(3)
    by (simp add: remove_unmatched_ring_atoms_def)
  show ?case
  proof (cases r1)
    case (Inl e)
    with a1 k1 show ?thesis by (subst rings_loop.simps) simp
  next
    case (Inr lrem)
    note r1 = this
    show ?thesis
    proof (cases r2)
      case (Inl e)
      with a1 a2 r1 k2 show ?thesis by (subst rings_loop.simps) simp
    next
      case (Inr rrem)
      show ?thesis
      proof (cases "length lrem = 0 \<and> length rrem = 0")
        case True
        with a1 a2 r1 Inr k2 show ?thesis by (subst rings_loop.simps) simp
      next
        case False
        obtain lcs' rcs' where rd: "readd_affected correct lrem rrem (lcs, rcs) = (lcs', rcs')"
          by (cases "readd_affected correct lrem rrem (lcs, rcs)")
        have av: "\<forall>c \<in> set lcs' \<union> set rcs'. avoids p c"
          using readd_affected_avoid[OF rd "1.prems"(2,3)] .
        have "p \<in> set (matched_pairs (snd (rings_loop lcs' rcs' correct st2)))"
          using "1.IH"[OF a1[symmetric] r1 a2[symmetric] Inr False rd[symmetric] k2 "1.prems"(2) av] .
        with a1 a2 r1 Inr False rd show ?thesis
          by (subst rings_loop.simps) auto
      qed
    qed
  qed
qed

text \<open>
  Claim C8.  \<open>enforce_no_partial_rings\<close> never removes a pair on account of a cycle of
  more than 7 atoms: a matched pair neither of whose atoms lies in an original cycle of at
  most 7 atoms (of either ligand) is still matched when the filter is done, whether it
  returns or raises.
\<close>

theorem macrocycles_exempt:
  assumes "p \<in> set (matched_pairs st)"
    and "\<forall>c \<in> set l_original \<union> set r_original.
           len_cycle c \<le> 7 \<longrightarrow> fst p \<notin> set c \<and> snd p \<notin> set c"
  shows "p \<in> set (matched_pairs (snd (enforce_no_partial_rings l_original r_original l_induced r_induced st)))"
proof (cases "top1 st = None \<or> top2 st = None")
  case True
  with assms(1) show ?thesis by (simp add: enforce_no_partial_rings_def)
next
  case False
  define small where "small = filter (\<lambda>c. len_cycle c \<le> MAX_CIRCLE_SIZE)"
  define cs0 where "cs0 = \<lparr>l_circles = small l_original, r_circles = small r_original,
                   l_matched_circles = small l_induced, r_matched_circles = small r_induced,
                   correct_circles = []\<rparr>"
  have av0: "circles_avoid p cs0"
    using assms(2) by (auto simp: circles_avoid_def cs0_def small_def MAX_CIRCLE_SIZE_def avoids_def)
  show ?thesis
  proof (cases "match_outer st (rev (l_matched_circles cs0)) cs0")
    case (Inl e)
    with False assms(1) show ?thesis
      by (simp add: enforce_no_partial_rings_def Let_def cs0_def small_def)
  next
    case (Inr cs)
    have av: "circles_avoid p cs" using match_outer_avoid[OF Inr av0] .
    have "p \<in> set (matched_pairs (snd (rings_loop (l_circles cs) (r_circles cs) (correct_circles cs) st)))"
      using rings_loop_keeps[OF assms(1), of "correct_circles cs" "l_circles cs" "r_circles cs"] av
      by (auto simp: circles_avoid_def)
    with False Inr assms(1) show ?thesis
      by (simp add: enforce_no_partial_rings_def Let_def cs0_def small_def)
  qed
qed

theorem macrocycles_exempt_witness:
  "(0, 100) \<in> set (matched_pairs ring_st)
   \<and> len_cycle [0, 1, 2, 3, 4, 5, 6, 7] = 8
   \<and> (0, 100) \<in> set (matched_pairs (snd (enforce_no_partial_rings
        [[0, 1, 2, 3, 4, 5, 6, 7], [10, 11, 12]]
        [[100, 101, 102, 103, 104, 105, 106, 107], [110, 111, 112]] [] [] ring_st)))"
proof -
  have m: "(0, 100) \<in> set (matched_pairs ring_st)"
    by (simp add: ring_st_def SuperimposedTopology_def)
  have a: "\<forall>c \<in> set [[0, 1, 2, 3, 4, 5, 6, 7], [10, 11, 12]]
            \<union> set [[100, 101, 102, 103, 104, 105, 106, 107], [110, 111, 112]].
         len_cycle c \<le> 7 \<longrightarrow> fst (0::nat, 100::nat) \<notin> set c \<and> snd (0::nat, 100::nat) \<notin> set c"
    by (simp add: len_cycle_def)
  have l: "len_cycle [0, 1, 2, 3, 4, 5, 6, 7] = 8"
    by (simp add: len_cycle_def)
  show ?thesis using m l macrocycles_exempt[OF m a, of "[]" "[]"] by blast
qed

subsection \<open>The net-charge filter loop\<close>

text \<open>A round that goes on has removed exactly one pair.\<close>

lemma remove_worst_charge_match_length:
  assumes "remove_worst_charge_match h st = (Inr d, st')" and "d \<noteq> 0"
  shows "Suc (length (matched_pairs st')) = length (matched_pairs st)"
  using assms
  by (auto simp: remove_worst_charge_match_def split: sum.splits if_splits list.splits prod.splits
           dest!: remove_node_pair_length)

text \<open>
  Claim C6.  The net-charge filter loop terminates on every topology (its list of matched
  pairs is finite): a round either leaves the loop, by the threshold test, an exception or
  the empty topology, or removes exactly one matched pair.
\<close>

theorem net_charge_loop_terminates:
  "\<exists>r. net_charge_loop h threshold st = Some r"
proof (induction "length (matched_pairs st)" arbitrary: st rule: less_induct)
  case less
  show ?case
  proof (cases "\<bar>get_net_charge h st\<bar> > threshold")
    case False
    then show ?thesis by (subst net_charge_loop.simps) simp
  next
    case True
    obtain r st' where rw: "remove_worst_charge_match h st = (r, st')"
      by (cases "remove_worst_charge_match h st")
    show ?thesis
    proof (cases r)
      case (Inl e)
      with True rw show ?thesis by (subst net_charge_loop.simps) simp
    next
      case (Inr d)
      show ?thesis
      proof (cases "d = 0 \<or> len_st st' = 0")
        case True
        with \<open>\<bar>get_net_charge h st\<bar> > threshold\<close> rw Inr show ?thesis
          by (subst net_charge_loop.simps) auto
      next
        case False
        then have "length (matched_pairs st') < length (matched_pairs st)"
          using remove_worst_charge_match_length[of h st d st'] rw Inr by simp
        from less[OF this] obtain r' where "net_charge_loop h threshold st' = Some r'"
          by blast
        with True rw Inr False show ?thesis
          by (subst net_charge_loop.simps) simp
      qed
    qed
  qed
qed

theorem net_charge_loop_terminates_witness:
  "\<exists>r. net_charge_loop chain_atoms (1 / 10) ring_st = Some r"
  using net_charge_loop_terminates [of chain_atoms "1 / 10" ring_st] by simp

subsection \<open>Well-formed topologies\<close>

lemma remove1_by_key:
  "distinct (map fst xs) \<Longrightarrow> (k, v) \<in> set xs \<Longrightarrow> remove1 (k, v) xs = filter (\<lambda>e. fst e \<noteq> k) xs"
proof (induction xs)
  case Nil
  then show ?case by simp
next
  case (Cons x xs)
  show ?case
  proof (cases "x = (k, v)")
    case True
    then have "\<forall>e \<in> set xs. fst e \<noteq> k" using Cons.prems(1) by force
    then have "filter (\<lambda>e. fst e \<noteq> k) xs = xs" by (simp add: filter_id_conv)
    with True show ?thesis by simp
  next
    case False
    with Cons.prems(2) have "(k, v) \<in> set xs" by simp
    then have "k \<in> fst ` set xs" by force
    then have "fst x \<noteq> k" using Cons.prems(1) by auto
    with False Cons \<open>(k, v) \<in> set xs\<close> show ?thesis by auto
  qed
qed

lemma detach_closed_form:
  assumes "distinct (map fst bs)"
    and "\<forall>(q, bt) \<in> set bs. \<exists>bs'. matched_pairs_bonds st q = Some bs' \<and> distinct (map fst bs') \<and> (p, bt) \<in> set bs'"
  shows "detach p bs st = (Inr (), st\<lparr>matched_pairs_bonds := detached p bs (matched_pairs_bonds st)\<rparr>)"
  using assms
proof (induction bs arbitrary: st)
  case Nil
  then show ?case by (simp add: detached_def)
next
  case (Cons x bs)
  obtain q bt where x: "x = (q, bt)" by (cases x)
  from Cons.prems(2) x obtain bs' where
    q: "matched_pairs_bonds st q = Some bs'" "distinct (map fst bs')" "(p, bt) \<in> set bs'"
    by auto
  define st' where "st' = st\<lparr>matched_pairs_bonds :=
      (matched_pairs_bonds st)(q \<mapsto> remove1 (p, bt) bs')\<rparr>"
  have qn: "q \<notin> fst ` set bs" using Cons.prems(1) x by force
  have d: "distinct (map fst bs)" using Cons.prems(1) by simp
  have a: "\<forall>(q', bt') \<in> set bs. \<exists>bs''. matched_pairs_bonds st' q' = Some bs'' \<and> distinct (map fst bs'') \<and> (p, bt') \<in> set bs''"
  proof -
    { fix q' bt' assume m: "(q', bt') \<in> set bs"
      then have "q' \<noteq> q" using qn by force
      then have "matched_pairs_bonds st' q' = matched_pairs_bonds st q'" by (simp add: st'_def)
      moreover from Cons.prems(2) m have
        "\<exists>bs''. matched_pairs_bonds st q' = Some bs'' \<and> distinct (map fst bs'') \<and> (p, bt') \<in> set bs''"
        by auto
      ultimately have "\<exists>bs''. matched_pairs_bonds st' q' = Some bs'' \<and> distinct (map fst bs'') \<and> (p, bt') \<in> set bs''"
        by simp }
    then show ?thesis by auto
  qed
  have step: "detach p (x # bs) st = detach p bs st'"
    using x q by (simp add: st'_def)
  have eqd: "detached p bs (matched_pairs_bonds st') = detached p (x # bs) (matched_pairs_bonds st)"
  proof
    fix r
    show "detached p bs (matched_pairs_bonds st') r = detached p (x # bs) (matched_pairs_bonds st) r"
      using qn x q remove1_by_key[OF q(2) q(3)]
      by (auto simp: detached_def st'_def)
  qed
  have "st'\<lparr>matched_pairs_bonds := detached p bs (matched_pairs_bonds st')\<rparr>
        = st\<lparr>matched_pairs_bonds := detached p (x # bs) (matched_pairs_bonds st)\<rparr>"
    unfolding eqd by (simp add: st'_def)
  with Cons.IH[OF d a] step show ?case by simp
qed

lemma wf_st_entry:
  assumes "wf_st st" "matched_pairs_bonds st p = Some bs"
  shows "p \<in> set (matched_pairs st)" "distinct (map fst bs)"
    "(q, bt) \<in> set bs \<Longrightarrow> q \<noteq> p \<and> (\<exists>bs'. matched_pairs_bonds st q = Some bs' \<and> (p, bt) \<in> set bs')"
proof -
  show m: "p \<in> set (matched_pairs st)" using assms by (auto simp: wf_st_def)
  show "distinct (map fst bs)" using assms m unfolding wf_st_def by blast
  assume "(q, bt) \<in> set bs"
  with assms m show "q \<noteq> p \<and> (\<exists>bs'. matched_pairs_bonds st q = Some bs' \<and> (p, bt) \<in> set bs')"
    unfolding wf_st_def by blast
qed

lemma wf_st_detached_unlink:
  assumes wf: "wf_st st" and b: "matched_pairs_bonds st p = Some bs"
  shows "detached p bs ((matched_pairs_bonds st)(p := None)) = unlink p (matched_pairs_bonds st)"
proof
  fix r
  show "detached p bs ((matched_pairs_bonds st)(p := None)) r = unlink p (matched_pairs_bonds st) r"
  proof (cases "r = p")
    case True
    then show ?thesis by (simp add: detached_def unlink_def)
  next
    case False
    show ?thesis
    proof (cases "r \<in> fst ` set bs")
      case True
      with False show ?thesis by (simp add: detached_def unlink_def)
    next
      case nin: False
      show ?thesis
      proof (cases "matched_pairs_bonds st r")
        case None
        with False nin show ?thesis by (simp add: detached_def unlink_def)
      next
        case (Some rs)
        have "\<forall>e \<in> set rs. fst e \<noteq> p"
        proof
          fix e assume e: "e \<in> set rs"
          obtain q bt where qe: "e = (q, bt)" by (cases e)
          show "fst e \<noteq> p"
          proof
            assume "fst e = p"
            with qe e have "(p, bt) \<in> set rs" by simp
            from wf_st_entry(3)[OF wf Some this] b have "(r, bt) \<in> set bs" by auto
            with nin show False by force
          qed
        qed
        then have "filter (\<lambda>e. fst e \<noteq> p) rs = rs" by (simp add: filter_id_conv)
        with False nin Some show ?thesis by (simp add: detached_def unlink_def)
      qed
    qed
  qed
qed

lemma wf_st_members:
  assumes "wf_st st" "p \<in> set (matched_pairs st)"
  shows "fst p \<in> nodes st" "snd p \<in> nodes st" "fst p \<noteq> snd p"
    "\<exists>bs. matched_pairs_bonds st p = Some bs"
proof -
  show "fst p \<in> nodes st" "snd p \<in> nodes st" using assms by (auto simp: wf_st_def)
  have "fst p \<in> set (map fst (matched_pairs st))" "snd p \<in> set (map snd (matched_pairs st))"
    using assms(2) by auto
  moreover have "set (map fst (matched_pairs st)) \<inter> set (map snd (matched_pairs st)) = {}"
    using assms(1) by (auto simp: wf_st_def)
  ultimately show "fst p \<noteq> snd p" by (metis disjoint_iff)
  show "\<exists>bs. matched_pairs_bonds st p = Some bs"
    using assms by (auto simp: wf_st_def dom_def)
qed

lemma remove_node_pair_wf:
  assumes wf: "wf_st st" and m: "p \<in> set (matched_pairs st)"
  shows "remove_node_pair p st = (Inr (), removed_pair p st)"
proof -
  from wf_st_members[OF wf m] obtain bs where
    n: "fst p \<in> nodes st" "snd p \<in> nodes st" "fst p \<noteq> snd p" and
    b: "matched_pairs_bonds st p = Some bs" by blast
  define st3 where "st3 = st\<lparr>matched_pairs := remove1 p (matched_pairs st),
        nodes := nodes st - {fst p} - {snd p},
        nodes_added_log := nodes_added_log st @ [Removed p],
        matched_pairs_bonds := (matched_pairs_bonds st)(p := None)\<rparr>"
  have d: "distinct (map fst bs)" using wf_st_entry(2)[OF wf b] .
  have a: "\<forall>(q, bt) \<in> set bs. \<exists>bs'. matched_pairs_bonds st3 q = Some bs' \<and> distinct (map fst bs') \<and> (p, bt) \<in> set bs'"
  proof -
    { fix q bt assume qm: "(q, bt) \<in> set bs"
      from wf_st_entry(3)[OF wf b qm] obtain bs' where
        q: "q \<noteq> p" "matched_pairs_bonds st q = Some bs'" "(p, bt) \<in> set bs'" by blast
      have "distinct (map fst bs')" using wf_st_entry(2)[OF wf q(2)] .
      with q have "\<exists>bs'. matched_pairs_bonds st3 q = Some bs' \<and> distinct (map fst bs') \<and> (p, bt) \<in> set bs'"
        by (simp add: st3_def) }
    then show ?thesis by auto
  qed
  have "remove_node_pair p st = detach p bs st3"
    using m n b by (simp add: remove_node_pair_def Let_def st3_def)
  also have "\<dots> = (Inr (), st3\<lparr>matched_pairs_bonds := detached p bs (matched_pairs_bonds st3)\<rparr>)"
    using detach_closed_form[OF d a] .
  also have "st3\<lparr>matched_pairs_bonds := detached p bs (matched_pairs_bonds st3)\<rparr> = removed_pair p st"
    using wf_st_detached_unlink[OF wf b] by (simp add: st3_def removed_pair_def)
  finally show ?thesis .
qed

lemma distinct_fst_snd_remove1:
  assumes "distinct (map fst xs @ map snd xs)"
  shows "distinct (map fst (remove1 p xs) @ map snd (remove1 p xs))"
proof -
  have "distinct (map fst (remove1 p xs))" "distinct (map snd (remove1 p xs))"
    using assms by (auto simp: distinct_map intro: inj_on_diff)
  moreover have "set (map fst (remove1 p xs)) \<inter> set (map snd (remove1 p xs)) = {}"
    using assms set_remove1_subset[of p xs] by auto
  ultimately show ?thesis by simp
qed

lemma removed_pair_wf:
  assumes wf: "wf_st st" and m: "p \<in> set (matched_pairs st)"
  shows "wf_st (removed_pair p st)"
proof -
  let ?mp = "matched_pairs st"
  have dist: "distinct (map fst ?mp @ map snd ?mp)" using wf by (simp add: wf_st_def)
  then have dmp: "distinct ?mp" by (simp add: distinct_map)
  have inj1: "inj_on fst (set ?mp)" and inj2: "inj_on snd (set ?mp)"
    using dist by (simp_all add: distinct_map)
  have disj: "set (map fst ?mp) \<inter> set (map snd ?mp) = {}" using dist by simp
  have set_rm: "set (remove1 p ?mp) = set ?mp - {p}" using dmp by simp
  have w1: "distinct (map fst (remove1 p ?mp) @ map snd (remove1 p ?mp))"
    using distinct_fst_snd_remove1[OF dist] .
  have f1: "fst ` (set ?mp - {p}) = fst ` set ?mp - {fst p}"
    using inj1 m by (auto simp: inj_on_def)
  have f2: "snd ` (set ?mp - {p}) = snd ` set ?mp - {snd p}"
    using inj2 m by (auto simp: inj_on_def)
  have nfs: "fst p \<notin> snd ` set ?mp" "snd p \<notin> fst ` set ?mp"
    using disj m by auto
  have w2: "nodes st - {fst p} - {snd p} =
        set (map fst (remove1 p ?mp)) \<union> set (map snd (remove1 p ?mp))"
  proof -
    have "nodes st = fst ` set ?mp \<union> snd ` set ?mp" using wf by (simp add: wf_st_def)
    then show ?thesis using f1 f2 nfs set_rm by auto
  qed
  have w3: "dom (unlink p (matched_pairs_bonds st)) = set (remove1 p ?mp)"
  proof -
    have "dom (matched_pairs_bonds st) = set ?mp" using wf by (simp add: wf_st_def)
    then show ?thesis using set_rm by (auto simp: unlink_def dom_def split: if_splits)
  qed
  have w4: "\<forall>r \<in> set (remove1 p ?mp). \<forall>bs. unlink p (matched_pairs_bonds st) r = Some bs \<longrightarrow>
        distinct (map fst bs) \<and>
        (\<forall>(q, bt) \<in> set bs. q \<noteq> r \<and>
           (\<exists>bs'. unlink p (matched_pairs_bonds st) q = Some bs' \<and> (r, bt) \<in> set bs'))"
  proof (intro ballI allI impI)
    fix r bs
    assume r: "r \<in> set (remove1 p ?mp)" and u: "unlink p (matched_pairs_bonds st) r = Some bs"
    from r set_rm have rp: "r \<noteq> p" by simp
    from u rp obtain rs where rs: "matched_pairs_bonds st r = Some rs"
      and bs: "bs = filter (\<lambda>e. fst e \<noteq> p) rs"
      by (auto simp: unlink_def)
    have "distinct (map fst rs)" using wf_st_entry(2)[OF wf rs] .
    then have d: "distinct (map fst bs)" unfolding bs by (rule distinct_map_filter)
    have e: "\<forall>(q, bt) \<in> set bs. q \<noteq> r \<and>
           (\<exists>bs'. unlink p (matched_pairs_bonds st) q = Some bs' \<and> (r, bt) \<in> set bs')"
    proof -
      { fix q bt assume "(q, bt) \<in> set bs"
        then have qm: "(q, bt) \<in> set rs" and qp: "q \<noteq> p" by (auto simp: bs)
        from wf_st_entry(3)[OF wf rs qm] obtain qs where
          q: "q \<noteq> r" "matched_pairs_bonds st q = Some qs" "(r, bt) \<in> set qs" by blast
        have "unlink p (matched_pairs_bonds st) q = Some (filter (\<lambda>e. fst e \<noteq> p) qs)"
          using qp q(2) by (simp add: unlink_def)
        moreover have "(r, bt) \<in> set (filter (\<lambda>e. fst e \<noteq> p) qs)" using q(3) rp by simp
        ultimately have "q \<noteq> r \<and> (\<exists>bs'. unlink p (matched_pairs_bonds st) q = Some bs' \<and> (r, bt) \<in> set bs')"
          using q(1) by blast }
      then show ?thesis by auto
    qed
    from d e show "distinct (map fst bs) \<and>
        (\<forall>(q, bt) \<in> set bs. q \<noteq> r \<and>
           (\<exists>bs'. unlink p (matched_pairs_bonds st) q = Some bs' \<and> (r, bt) \<in> set bs'))" by blast
  qed
  show ?thesis
    unfolding wf_st_def removed_pair_def using w1 w2 w3 w4 by simp
qed

subsection \<open>Charge refinement\<close>

lemma removed_pair_fields [simp]:
  "matched_pairs (removed_pair p st) = remove1 p (matched_pairs st)"
  "removed_pairs_with_charge_difference (removed_pair p st) = removed_pairs_with_charge_difference st"
  "nodes_added_log (removed_pair p st) = nodes_added_log st @ [Removed p]"
  by (simp_all add: removed_pair_def)

lemma wf_st_charge_log_update [simp]:
  "wf_st (st\<lparr>removed_pairs_with_charge_difference := x\<rparr>) = wf_st st"
  by (simp add: wf_st_def)

lemma wf_st_distinct: "wf_st st \<Longrightarrow> distinct (matched_pairs st)"
  by (simp add: wf_st_def distinct_map)



lemmas eval_defs = refine_against_charges_def remove_attached_hydrogens_def remove_node_pair_def
  amide_st_def amide_atoms_def SuperimposedTopology_def single_bond_def eq_def isclose_def
  sort_descending_def startswith_H_def Let_def




subsection \<open>Attached hydrogens\<close>

lemma remove_attached_loop_wf:
  assumes "wf_st st" "distinct (map fst bs)" "fst ` set bs \<subseteq> set (matched_pairs st)"
  shows "\<exists>st'. remove_attached_loop h bs acc st
                  = (Inr (acc @ filter (named_H h) (map fst bs)), st') \<and> wf_st st' \<and>
           matched_pairs st' =
             filter (\<lambda>q. \<not> (q \<in> fst ` set bs \<and> named_H h q)) (matched_pairs st)"
  using assms
proof (induction bs arbitrary: st acc)
  case Nil
  then show ?case by simp
next
  case (Cons x bs)
  obtain q bt where x: "x = (q, bt)" by (cases x)
  have d: "distinct (map fst bs)" and qn: "q \<notin> fst ` set bs"
    using Cons.prems(2) x by auto
  show ?case
  proof (cases "named_H h q")
    case False
    have sub: "fst ` set bs \<subseteq> set (matched_pairs st)" using Cons.prems(3) by auto
    from Cons.IH[OF Cons.prems(1) d sub, of acc] obtain st' where
      st': "remove_attached_loop h bs acc st = (Inr (acc @ filter (named_H h) (map fst bs)), st')"
        "wf_st st'"
        "matched_pairs st' = filter (\<lambda>q. \<not> (q \<in> fst ` set bs \<and> named_H h q)) (matched_pairs st)"
      by blast
    have "filter (\<lambda>r. \<not> (r \<in> fst ` set (x # bs) \<and> named_H h r)) (matched_pairs st)
          = filter (\<lambda>r. \<not> (r \<in> fst ` set bs \<and> named_H h r)) (matched_pairs st)"
      using False x by (intro filter_cong) auto
    moreover have "remove_attached_loop h (x # bs) acc st = remove_attached_loop h bs acc st"
      using False x by (simp add: named_H_def)
    ultimately show ?thesis using st' False x by simp
  next
    case True
    have m: "q \<in> set (matched_pairs st)" using Cons.prems(3) x by simp
    have wf2: "wf_st (removed_pair q st)" using removed_pair_wf[OF Cons.prems(1) m] .
    have sub: "fst ` set bs \<subseteq> set (matched_pairs (removed_pair q st))"
      using Cons.prems(3) qn wf_st_distinct[OF Cons.prems(1)] by auto
    from Cons.IH[OF wf2 d sub, of "acc @ [q]"] obtain st' where
      st': "remove_attached_loop h bs (acc @ [q]) (removed_pair q st)
              = (Inr ((acc @ [q]) @ filter (named_H h) (map fst bs)), st')"
        "wf_st st'"
        "matched_pairs st' = filter (\<lambda>r. \<not> (r \<in> fst ` set bs \<and> named_H h r))
                                (matched_pairs (removed_pair q st))"
      by blast
    have step: "remove_attached_loop h (x # bs) acc st
                  = remove_attached_loop h bs (acc @ [q]) (removed_pair q st)"
      using True x remove_node_pair_wf[OF Cons.prems(1) m] by (simp add: named_H_def)
    have "remove1 q (matched_pairs st) = filter (\<lambda>r. r \<noteq> q) (matched_pairs st)"
      using wf_st_distinct[OF Cons.prems(1)]
      by (simp add: distinct_remove1_removeAll removeAll_filter_not_eq) metis
    then have "matched_pairs st' =
        filter (\<lambda>r. \<not> (r \<in> fst ` set (x # bs) \<and> named_H h r)) (matched_pairs st)"
      using st'(3) True x by (auto intro: filter_cong)
    with st'(1,2) step True x show ?thesis by simp
  qed
qed

text \<open>
  What \<open>remove_attached_hydrogens(p)\<close> does on a well-formed topology: it returns, and it
  removes exactly the pairs bound to \<open>p\<close> in \<open>matched_pairs_bonds\<close> whose left atom's
  name starts with \<open>H\<close>.
\<close>

lemma remove_attached_hydrogens_by_name:
  assumes "wf_st st"
  shows "\<exists>removed_pairs st'.
           remove_attached_hydrogens h p st = (Inr removed_pairs, st') \<and>
           matched_pairs st' =
             filter (\<lambda>q. \<not> (adjacent st p q \<and> take 1 (name (h (fst q))) = ''H''))
                    (matched_pairs st)"
proof (cases "matched_pairs_bonds st p")
  case None
  then show ?thesis by (simp add: remove_attached_hydrogens_def adjacent_def)
next
  case (Some bs)
  have d: "distinct (map fst bs)" using wf_st_entry(2)[OF assms Some] .
  have sub: "fst ` set bs \<subseteq> set (matched_pairs st)"
  proof
    fix q assume "q \<in> fst ` set bs"
    then obtain bt where "(q, bt) \<in> set bs" by force
    from wf_st_entry(3)[OF assms Some this] have "q \<in> dom (matched_pairs_bonds st)" by auto
    then show "q \<in> set (matched_pairs st)" using assms by (simp add: wf_st_def)
  qed
  from remove_attached_loop_wf[OF assms d sub, of h "[]"] obtain st' where
    st': "remove_attached_loop h bs [] st = (Inr ([] @ filter (named_H h) (map fst bs)), st')"
      "matched_pairs st' = filter (\<lambda>q. \<not> (q \<in> fst ` set bs \<and> named_H h q)) (matched_pairs st)"
    by blast
  have "matched_pairs st' = filter (\<lambda>q. \<not> (adjacent st p q \<and> take 1 (name (h (fst q))) = ''H''))
                    (matched_pairs st)"
    unfolding st'(2) using Some
    by (intro filter_cong) (auto simp: adjacent_def named_H_def startswith_H_def)
  with st'(1) Some show ?thesis by (simp add: remove_attached_hydrogens_def)
qed

text \<open>
  Claim C9 fails on the code.  The docstring of \<open>remove_attached_hydrogens\<close> says
  "Remove the dangling hydrogens" and its loop skips a pair under the comment
  "ignore non hydrogens", but the test is on the name of the left atom,
  \<open>pair[0].name.startswith('H')\<close>.  In \<open>amide_st\<close> the pairs \<open>(H1, H11)\<close> and
  \<open>(1H2, 1H12)\<close> are both bound to \<open>(C1, C11)\<close> and all four atoms have the type
  \<open>HC\<close>, so the element \<open>H\<close>; \<open>remove_attached_hydrogens((C1, C11))\<close> removes the
  first pair only and leaves \<open>(1H2, 1H12)\<close> matched.
\<close>

theorem remove_attached_hydrogens_keeps_hydrogen:
  "(0, 10) \<in> set (matched_pairs amide_st)
   \<and> adjacent amide_st (0, 10) (2, 12) \<and> adjacent amide_st (0, 10) (3, 13)
   \<and> element (amide_atoms 2) = ''H'' \<and> element (amide_atoms 12) = ''H''
   \<and> element (amide_atoms 3) = ''H'' \<and> element (amide_atoms 13) = ''H''
   \<and> name (amide_atoms 3) = ''1H2''
   \<and> fst (remove_attached_hydrogens amide_atoms (0, 10) amide_st) = Inr [(2, 12)]
   \<and> matched_pairs (snd (remove_attached_hydrogens amide_atoms (0, 10) amide_st))
       = [(3, 13), (0, 10), (1, 11)]"
  by (simp add: eval_defs adjacent_def)

subsection \<open>The overlay kernel\<close>

text \<open>
  Claim C2, as the code has it.  For the two-atom chains \<open>C1-N1\<close> and \<open>C11-N11\<close>, the
  kernel called with the seed \<open>(C1, N11)\<close> and a fresh empty topology returns \<open>None\<close>, no
  topology at all, because the types disagree at the first step; the topology it was
  given stays empty.  This holds at every depth of recursion, for either setting of
  \<open>use_element_type\<close> and whatever the resolver.
\<close>

theorem overlay_wrong_start_returns_none:
  "overlay (Suc fuel) resolve chain_atoms 0 3 None None bond_types
     (SuperimposedTopology t1 t2 lc rc) use_element_type
   = Some (Inr None, SuperimposedTopology t1 t2 lc rc)"
  by (simp add: overlay_guards_def contains_any_node_def SuperimposedTopology_def
      same_element_def same_type_def chain_atoms_def)

theorem overlay_wrong_start_returns_none_witness:
  "overlay (Suc 0) first_solution chain_atoms 0 3 None None (None, None) chain_st True
   = Some (Inr None, chain_st)"
  using overlay_wrong_start_returns_none [of 0 first_solution "(None, None)"
      "Some [0, 1]" "Some [2, 3]" "Some []" "Some []" True]
  by (simp add: chain_st_def)

text \<open>
  The claim as stated fails: what the call returns is \<open>None\<close>, not a topology of size 0.
\<close>

theorem overlay_wrong_start_counterexample:
  "fst (the (overlay (Suc 0) first_solution chain_atoms 0 3 None None (None, None) chain_st True))
   = Inr None
   \<and> len_st chain_st = 0
   \<and> fst (the (overlay (Suc 0) first_solution chain_atoms 0 3 None None (None, None) chain_st True))
     \<noteq> Inr (Some chain_st)"
  by (simp add: overlay_guards_def contains_any_node_def SuperimposedTopology_def
      same_element_def same_type_def chain_atoms_def chain_st_def len_st_def)




subsection \<open>Topologies as objects: the shallow copy\<close>

lemma copy_st_addresses:
  assumes "allocated s st1" and "copy_st st1 s = (st2, s')"
  shows "matched_pairs_at st2 \<noteq> matched_pairs_at st1"
    "nodes_at st2 \<noteq> nodes_at st1"
    "nodes_added_log_at st2 \<noteq> nodes_added_log_at st1"
    "matched_pairs_bonds_at st2 \<noteq> matched_pairs_bonds_at st1"
    "mirrors_at st2 \<noteq> mirrors_at st1" "mirrors_at st2 \<noteq> alternative_mappings_at st1"
    "alternative_mappings_at st2 \<noteq> alternative_mappings_at st1"
    "alternative_mappings_at st2 \<noteq> mirrors_at st1"
    "mirrors_at st2 \<noteq> alternative_mappings_at st2"
    "removed_pairs_with_charge_difference_at st2 = removed_pairs_with_charge_difference_at st1"
    "removed_because_disjointed_cc_at st2 = removed_because_disjointed_cc_at st1"
    "removed_due_to_net_charge_at st2 = removed_due_to_net_charge_at st1"
    "removed_because_unmatched_rings_at st2 = removed_because_unmatched_rings_at st1"
    "removed_because_diff_bonds_at st2 = removed_because_diff_bonds_at st1"
    "attributes st2 = attributes st1"
  using assms
  by (auto simp: copy_st_def new_object_def allocated_def Let_def write_back_def)

lemma copy_st_load:
  assumes "allocated s st1" and "copy_st st1 s = (st2, s')"
  shows "load s' st1 = load s st1" "load s' st2 = load s st1"
  using assms
  by (auto simp: copy_st_def new_object_def allocated_def Let_def write_back_def load_def)

lemma run_own_containers:
  assumes "matched_pairs_at st2 \<noteq> matched_pairs_at st1"
    "nodes_at st2 \<noteq> nodes_at st1"
    "nodes_added_log_at st2 \<noteq> nodes_added_log_at st1"
    "matched_pairs_bonds_at st2 \<noteq> matched_pairs_bonds_at st1"
    "mirrors_at st2 \<noteq> mirrors_at st1" "mirrors_at st2 \<noteq> alternative_mappings_at st1"
    "alternative_mappings_at st2 \<noteq> alternative_mappings_at st1"
    "alternative_mappings_at st2 \<noteq> mirrors_at st1"
  shows "own_containers (load (snd (snd (run mutator st2 s))) st1) = own_containers (load s st1)"
  using assms
  by (auto simp: run_def own_containers_def load_def write_back_def split: prod.splits)

lemma run_removal_logs:
  assumes "removed_pairs_with_charge_difference_at st2 = removed_pairs_with_charge_difference_at st1"
    "removed_because_disjointed_cc_at st2 = removed_because_disjointed_cc_at st1"
    "removed_due_to_net_charge_at st2 = removed_due_to_net_charge_at st1"
    "removed_because_unmatched_rings_at st2 = removed_because_unmatched_rings_at st1"
    "removed_because_diff_bonds_at st2 = removed_because_diff_bonds_at st1"
    "removed_pairs_with_charge_difference_at st1 \<noteq> removed_due_to_net_charge_at st1"
    "removed_because_disjointed_cc_at st1 \<noteq> removed_because_unmatched_rings_at st1"
  shows "removal_logs (load (snd (snd (run mutator st2 s))) st1)
         = removal_logs (snd (mutator (load s st2)))"
  using assms
  by (auto simp: run_def removal_logs_def load_def write_back_def split: prod.splits)

lemma run_load:
  assumes "mirrors_at obj \<noteq> alternative_mappings_at obj"
    "removed_pairs_with_charge_difference_at obj \<noteq> removed_due_to_net_charge_at obj"
    "removed_because_disjointed_cc_at obj \<noteq> removed_because_unmatched_rings_at obj"
  shows "load (snd (snd (run mutator obj s))) (fst (snd (run mutator obj s)))
         = snd (mutator (load s obj))"
  using assms
  by (auto simp: run_def load_def write_back_def split: prod.splits)

lemma amide_object_allocated: "allocated amide_store amide_object"
  by (simp add: allocated_def amide_store_def amide_object_def write_back_def)

lemma load_amide_object: "load amide_store amide_object = amide_st"
  by (simp add: load_def amide_store_def amide_object_def write_back_def)

lemma refine_amide_st:
  "removal_logs (snd (refine_against_charges amide_atoms (1 / 10) False amide_st))
     = ([((1, 11), 1 / 5), ((0, 10), 0)], [], [], [], [])"
  "own_containers amide_st =
     ([(3, 13), (0, 10), (2, 12), (1, 11)], {0, 1, 2, 3, 10, 11, 12, 13}, [],
      [(0, 10) \<mapsto> [((1, 11), single_bond), ((2, 12), single_bond), ((3, 13), single_bond)],
         (1, 11) \<mapsto> [((0, 10), single_bond)],
         (2, 12) \<mapsto> [((0, 10), single_bond)],
         (3, 13) \<mapsto> [((0, 10), single_bond)]], [], [])"
  by (simp_all add: eval_defs removal_logs_def own_containers_def)

text \<open>
  Claim C10.  After \<open>st2 = copy(st1)\<close> the two objects have the same contents; the
  containers \<open>matched_pairs\<close>, \<open>nodes\<close>, \<open>nodes_added_log\<close>, \<open>matched_pairs_bonds\<close>,
  \<open>mirrors\<close> and \<open>alternative_mappings\<close> of \<open>st2\<close> are new objects, and the five removal
  logs are the very objects of \<open>st1\<close>.  So whatever a mutating call does through one of the two,
  the other sees the same five logs afterwards and keeps its own six containers.
\<close>

theorem copy_shares_removal_logs:
  assumes "allocated s st1" and "copy_st st1 s = (st2, s')"
  shows "load s' st2 = load s st1 \<and> load s' st1 = load s st1
    \<and> matched_pairs_at st2 \<noteq> matched_pairs_at st1 \<and> nodes_at st2 \<noteq> nodes_at st1
    \<and> nodes_added_log_at st2 \<noteq> nodes_added_log_at st1
    \<and> matched_pairs_bonds_at st2 \<noteq> matched_pairs_bonds_at st1
    \<and> mirrors_at st2 \<noteq> mirrors_at st1
    \<and> alternative_mappings_at st2 \<noteq> alternative_mappings_at st1
    \<and> removed_pairs_with_charge_difference_at st2 = removed_pairs_with_charge_difference_at st1
    \<and> removed_because_disjointed_cc_at st2 = removed_because_disjointed_cc_at st1
    \<and> removed_due_to_net_charge_at st2 = removed_due_to_net_charge_at st1
    \<and> removed_because_unmatched_rings_at st2 = removed_because_unmatched_rings_at st1
    \<and> removed_because_diff_bonds_at st2 = removed_because_diff_bonds_at st1
    \<and> load (snd (snd (run mutator st2 s'))) (fst (snd (run mutator st2 s')))
        = snd (mutator (load s st1))
    \<and> removal_logs (load (snd (snd (run mutator st2 s'))) st1)
        = removal_logs (snd (mutator (load s st1)))
    \<and> own_containers (load (snd (snd (run mutator st2 s'))) st1) = own_containers (load s st1)
    \<and> load (snd (snd (run mutator st1 s'))) (fst (snd (run mutator st1 s')))
        = snd (mutator (load s st1))
    \<and> removal_logs (load (snd (snd (run mutator st1 s'))) st2)
        = removal_logs (snd (mutator (load s st1)))
    \<and> own_containers (load (snd (snd (run mutator st1 s'))) st2) = own_containers (load s st1)"
proof -
  note a = copy_st_addresses[OF assms]
  note l = copy_st_load[OF assms]
  have d: "mirrors_at st1 \<noteq> alternative_mappings_at st1"
    "removed_pairs_with_charge_difference_at st1 \<noteq> removed_due_to_net_charge_at st1"
    "removed_because_disjointed_cc_at st1 \<noteq> removed_because_unmatched_rings_at st1"
    using assms(1) by (simp_all add: allocated_def)
  have d2: "removed_pairs_with_charge_difference_at st2 \<noteq> removed_due_to_net_charge_at st2"
    "removed_because_disjointed_cc_at st2 \<noteq> removed_because_unmatched_rings_at st2"
    using d a by simp_all
  have r2: "load (snd (snd (run mutator st2 s'))) (fst (snd (run mutator st2 s')))
        = snd (mutator (load s st1))"
    using run_load[OF a(9) d2, of mutator s'] l by simp
  have g2: "removal_logs (load (snd (snd (run mutator st2 s'))) st1)
        = removal_logs (snd (mutator (load s st1)))"
    using run_removal_logs[OF a(10-14) d(2,3), of mutator s'] l by simp
  have o2: "own_containers (load (snd (snd (run mutator st2 s'))) st1) = own_containers (load s st1)"
    using run_own_containers[OF a(1-5) a(6) a(7) a(8), of mutator s'] l by simp
  have r1: "load (snd (snd (run mutator st1 s'))) (fst (snd (run mutator st1 s')))
        = snd (mutator (load s st1))"
    using run_load[OF d, of mutator s'] l by simp
  have g1: "removal_logs (load (snd (snd (run mutator st1 s'))) st2)
        = removal_logs (snd (mutator (load s st1)))"
    using run_removal_logs[OF a(10-14)[symmetric] d2, of mutator s'] l by simp
  have o1: "own_containers (load (snd (snd (run mutator st1 s'))) st2) = own_containers (load s st1)"
    using run_own_containers[OF a(1-4)[symmetric] a(5)[symmetric] a(8)[symmetric]
        a(7)[symmetric] a(6)[symmetric], of mutator s'] l by simp
  show ?thesis
    using a l r2 g2 o2 r1 g1 o1 by simp
qed

theorem copy_shares_removal_logs_witness:
  "removal_logs (load (snd (snd (run (refine_against_charges amide_atoms (1 / 10) False)
        (fst (copy_st amide_object amide_store)) (snd (copy_st amide_object amide_store)))))
      amide_object)
     = ([((1, 11), 1 / 5), ((0, 10), 0)], [], [], [], [])
   \<and> matched_pairs (load (snd (snd (run (refine_against_charges amide_atoms (1 / 10) False)
        (fst (copy_st amide_object amide_store)) (snd (copy_st amide_object amide_store)))))
      amide_object)
     = [(3, 13), (0, 10), (2, 12), (1, 11)]"
proof -
  have c: "copy_st amide_object amide_store
           = (fst (copy_st amide_object amide_store), snd (copy_st amide_object amide_store))"
    by simp
  note t = copy_shares_removal_logs [OF amide_object_allocated c,
      of "refine_against_charges amide_atoms (1 / 10) False"]
  from t have "removal_logs (load (snd (snd (run (refine_against_charges amide_atoms (1 / 10) False)
        (fst (copy_st amide_object amide_store)) (snd (copy_st amide_object amide_store)))))
      amide_object)
     = removal_logs (snd (refine_against_charges amide_atoms (1 / 10) False amide_st))"
    by (simp add: load_amide_object)
  moreover from t have "own_containers (load (snd (snd (run (refine_against_charges amide_atoms (1 / 10) False)
        (fst (copy_st amide_object amide_store)) (snd (copy_st amide_object amide_store)))))
      amide_object) = own_containers amide_st"
    by (simp add: load_amide_object)
  ultimately show ?thesis
    using refine_amide_st by (simp add: own_containers_def)
qed

subsection \<open>The orchestrator\<close>

lemma seed_loop_barren:
  "list_all (barren fuel ev opts h top1_nodes top2_nodes) seeds \<Longrightarrow>
     seed_loop fuel ev opts h top1_nodes top2_nodes seeds suptops = Some (Inr suptops)"
proof (induction seeds)
  case Nil
  then show ?case by simp
next
  case (Cons seed seeds)
  obtain node1 node2 where s: "seed = (node1, node2)" by (cases seed)
  from Cons.prems have b: "barren fuel ev opts h top1_nodes top2_nodes (node1, node2)"
    and r: "list_all (barren fuel ev opts h top1_nodes top2_nodes) seeds"
    by (simp_all add: s)
  from b Cons.IH[OF r] show ?case
    by (auto simp: s barren_def split: option.splits sum.splits prod.splits)
qed

text \<open>
  Claim C1, as the code has it.  When no seed yields a non-empty topology,
  \<open>superimpose_topologies\<close> does not return an empty sequence: it raises, either the
  error of the validation that precedes the search or, when the input is valid, the
  exception "Did not find a single superimposition state".
\<close>

theorem empty_search_is_fatal:
  assumes "list_all (barren fuel ev opts h top1_nodes top2_nodes)
             (chosen_seeds ev opts top1_nodes top2_nodes)"
  shows "superimpose_topologies fuel ev opts h top1_nodes top2_nodes =
           Some (Inl (case validated opts h top1_nodes top2_nodes of
                        Inl e \<Rightarrow> e | Inr _ \<Rightarrow> no_superimposition))"
proof -
  have "private_superimpose_topologies fuel ev opts h top1_nodes top2_nodes = Some (Inr [])"
    using seed_loop_barren[OF assms, of "[]"]
    by (simp add: private_superimpose_topologies_def)
  then have "found_suptops fuel ev opts h top1_nodes top2_nodes =
           Some (Inl (case validated opts h top1_nodes top2_nodes of
                        Inl e \<Rightarrow> e | Inr _ \<Rightarrow> no_superimposition))"
    by (simp add: found_suptops_def and_then_def split: sum.splits)
  then show ?thesis
    by (simp add: superimpose_topologies_def superimpose_topologies_with_def filtered_def
        and_then_def)
qed

theorem empty_search_is_fatal_witness:
  "superimpose_topologies 5 example_env default_options cn_atoms [0, 1] [2, 3]
     = Some (Inl no_superimposition)"
proof -
  have b: "list_all (barren 5 example_env default_options cn_atoms [0, 1] [2, 3])
             (chosen_seeds example_env default_options [0, 1] [2, 3])"
    by code_simp
  have v: "validated default_options cn_atoms [0, 1] [2, 3] = Inr ()"
    by code_simp
  show ?thesis using empty_search_is_fatal[OF b] v by simp
qed

text \<open>
  The claim as stated fails: for \<open>C1-C2\<close> against \<open>N11-N12\<close> none of the four seeds
  yields a topology, and the call ends with the exception.
\<close>

theorem empty_search_counterexample:
  "list_all (barren 5 example_env default_options cn_atoms [0, 1] [2, 3])
     (List.product [0, 1] [2, 3])
   \<and> (case superimpose_topologies 5 example_env default_options cn_atoms [0, 1] [2, 3] of
        Some (Inl e) \<Rightarrow>
          e = Exception (''Error: Did not find a single superimposition state.''
            @ ''Error: Not even a single atom is common across the two molecules? Something must be wrong. '')
      | _ \<Rightarrow> False)"
  by code_simp

text \<open>
  Claim C5, as the code has it.  \<open>redistribute_charges\<close> is called exactly when
  \<open>redistribute_charges_over_unmatched\<close> is set, \<open>ignore_charges_completely\<close> is not, and
  \<open>disjoint_components\<close> is true: otherwise the result does not depend on the function
  in its place; in that case, with one surviving topology, the result is what follows
  from calling it on that topology, and with more than one the call is replaced by
  \<open>NotImplementedError\<close>.
\<close>

theorem redistribute_charges_call:
  "(\<not> (redistribute_charges_over_unmatched opts \<and> \<not> ignore_charges_completely opts
         \<and> disjoint_components opts) \<longrightarrow>
      superimpose_topologies_with f fuel ev opts h top1_nodes top2_nodes
        = superimpose_topologies_with g fuel ev opts h top1_nodes top2_nodes)
   \<and> (redistribute_charges_over_unmatched opts \<and> \<not> ignore_charges_completely opts
         \<and> disjoint_components opts \<longrightarrow>
      filtered fuel ev opts h top1_nodes top2_nodes = Some (Inr (h1, [st])) \<longrightarrow>
      superimpose_topologies_with f fuel ev opts h top1_nodes top2_nodes
        = and_then (Some (f h1 st)) (\<lambda>h2. finish ev opts h2 [st]))
   \<and> (redistribute_charges_over_unmatched opts \<and> \<not> ignore_charges_completely opts
         \<and> disjoint_components opts \<longrightarrow>
      filtered fuel ev opts h top1_nodes top2_nodes = Some (Inr (h1, suptops)) \<longrightarrow>
      length suptops > 1 \<longrightarrow>
      superimpose_topologies_with f fuel ev opts h top1_nodes top2_nodes
        = Some (Inl NotImplementedError))"
  by (auto simp: superimpose_topologies_with_def redistribution_def and_then_def
           split: option.splits sum.splits)

lemma sole_result:
  assumes "case r of Some (Inr (h1, [st])) \<Rightarrow> True | _ \<Rightarrow> False"
  obtains h1 st where "r = Some (Inr (h1 :: atoms, [st :: ST]))"
proof (cases r)
  case None
  with assms show ?thesis by simp
next
  case (Some x)
  show ?thesis
  proof (cases x)
    case (Inl e)
    with assms Some show ?thesis by simp
  next
    case (Inr p)
    obtain h1 sts where p: "p = (h1, sts)" by (cases p)
    show ?thesis
    proof (cases sts)
      case Nil
      with assms Some Inr p show ?thesis by simp
    next
      case (Cons st rest)
      with assms Some Inr p have "rest = []" by (cases rest) simp_all
      with Cons Some Inr p that show ?thesis by simp
    qed
  qed
qed

theorem redistribute_charges_call_witness:
  "superimpose_topologies_with tripwire 5 example_env (seeded_options\<lparr>disjoint_components := False\<rparr>)
     chain_atoms [0, 1] [2, 3]
   = superimpose_topologies 5 example_env (seeded_options\<lparr>disjoint_components := False\<rparr>)
     chain_atoms [0, 1] [2, 3]
   \<and> superimpose_topologies_with tripwire 5 example_env seeded_options chain_atoms [0, 1] [2, 3]
     = Some (Inl (Exception ''redistribute_charges was called''))"
proof -
  note t = redistribute_charges_call
  have n: "\<not> (redistribute_charges_over_unmatched (seeded_options\<lparr>disjoint_components := False\<rparr>)
          \<and> \<not> ignore_charges_completely (seeded_options\<lparr>disjoint_components := False\<rparr>)
          \<and> disjoint_components (seeded_options\<lparr>disjoint_components := False\<rparr>))"
    by simp
  have a: "superimpose_topologies_with tripwire 5 example_env
             (seeded_options\<lparr>disjoint_components := False\<rparr>) chain_atoms [0, 1] [2, 3]
           = superimpose_topologies 5 example_env (seeded_options\<lparr>disjoint_components := False\<rparr>)
             chain_atoms [0, 1] [2, 3]"
    using n t [of "seeded_options\<lparr>disjoint_components := False\<rparr>"
      tripwire 5 example_env chain_atoms "[0, 1]" "[2, 3]" redistribute_charges]
    by (simp add: superimpose_topologies_def)
  have c: "redistribute_charges_over_unmatched seeded_options
           \<and> \<not> ignore_charges_completely seeded_options \<and> disjoint_components seeded_options"
    by (simp add: seeded_options_def default_options_def)
  have "case filtered 5 example_env seeded_options chain_atoms [0, 1] [2, 3] of
          Some (Inr (h1, [st])) \<Rightarrow> True | _ \<Rightarrow> False"
    by code_simp
  then obtain h1 st where
    f: "filtered 5 example_env seeded_options chain_atoms [0, 1] [2, 3] = Some (Inr (h1, [st]))"
    by (rule sole_result)
  have b: "superimpose_topologies_with tripwire 5 example_env seeded_options chain_atoms [0, 1] [2, 3]
           = Some (Inl (Exception ''redistribute_charges was called''))"
    using c f t [of seeded_options tripwire 5 example_env chain_atoms "[0, 1]" "[2, 3]" tripwire h1 st]
    by (simp add: tripwire_def and_then_def)
  from a b show ?thesis by simp
qed

text \<open>
  The claim as stated fails in both directions: with \<open>disjoint_components=False\<close> a
  function that raises when called is not reached, and with \<open>disjoint_components=True\<close>
  it is.
\<close>

theorem redistribute_charges_call_counterexample:
  "redistribute_charges_over_unmatched (seeded_options\<lparr>disjoint_components := False\<rparr>)
   \<and> \<not> disjoint_components (seeded_options\<lparr>disjoint_components := False\<rparr>)
   \<and> (case superimpose_topologies_with tripwire 5 example_env
             (seeded_options\<lparr>disjoint_components := False\<rparr>) chain_atoms [0, 1] [2, 3] of
        Some (Inr (h, suptops)) \<Rightarrow> map matched_pairs suptops = [[(0, 2), (1, 3)]]
      | _ \<Rightarrow> False)
   \<and> disjoint_components seeded_options
   \<and> (case superimpose_topologies_with tripwire 5 example_env seeded_options
             chain_atoms [0, 1] [2, 3] of
        Some (Inl e) \<Rightarrow> e = Exception ''redistribute_charges was called''
      | _ \<Rightarrow> False)"
  by code_simp

subsection \<open>Reachable states and the order of the matched pairs\<close>

lemma sorted_add_node_pair:
  "sorted_by_left_name h st \<Longrightarrow> sorted_by_left_name h (snd (add_node_pair h p st))"
  by (simp add: add_node_pair_def sorted_by_left_name_def sort_by_left_name_def Let_def)

lemma sorted_remove_node_pair:
  "sorted_by_left_name h st \<Longrightarrow> sorted_by_left_name h (snd (remove_node_pair p st))"
  by (simp add: sorted_by_left_name_def remove_node_pair_matched_pairs sorted_map_remove1)

lemma link_pairs_matched_pairs [simp]:
  "matched_pairs (snd (link_pairs p ps st)) = matched_pairs st"
  by (induction p ps st rule: link_pairs.induct) (auto split: option.splits simp: Let_def)

lemma link_with_parent_matched_pairs [simp]:
  "matched_pairs (snd (link_with_parent p q bt st)) = matched_pairs st"
  by (auto simp: link_with_parent_def Let_def split: option.splits)

lemma sorted_merge_add:
  "sorted_by_left_name h st \<Longrightarrow> sorted_by_left_name h (snd (merge_add h ps acc st))"
proof (induction h ps acc st rule: merge_add.induct)
  case (1 h merged_pairs st)
  then show ?case by simp
next
  case (2 h p rest merged_pairs st)
  then show ?case
    using sorted_add_node_pair[of h st p]
    by (auto split: prod.splits sum.splits)
qed

lemma merge_link_matched_pairs [simp]:
  "matched_pairs (snd (merge_link other ps st)) = matched_pairs st"
proof (induction other ps st rule: merge_link.induct)
  case (1 other st)
  then show ?case by simp
next
  case (2 other p rest st)
  show ?case
  proof (cases "matched_pairs_bonds other p")
    case None
    then show ?thesis by simp
  next
    case (Some bs)
    show ?thesis
    proof (cases "link_pairs p bs st")
      case (Pair r st')
      then have "matched_pairs st' = matched_pairs st"
        using link_pairs_matched_pairs[of p bs st] by simp
      with 2 Some Pair show ?thesis
        by (cases r) auto
    qed
  qed
qed

lemma sorted_merge:
  "sorted_by_left_name h st \<Longrightarrow> sorted_by_left_name h (snd (merge h other st))"
proof -
  assume a: "sorted_by_left_name h st"
  obtain r1 st1 where m1: "merge_add h (matched_pairs other) [] st = (r1, st1)"
    by (cases "merge_add h (matched_pairs other) [] st")
  have s1: "sorted_by_left_name h st1"
    using sorted_merge_add[OF a, of "matched_pairs other" "[]"] m1 by simp
  show ?thesis
  proof (cases r1)
    case (Inl e)
    with m1 s1 show ?thesis by (simp add: merge_def)
  next
    case (Inr merged)
    obtain r2 st2 where m2: "merge_link other merged st1 = (r2, st2)"
      by (cases "merge_link other merged st1")
    have "matched_pairs st2 = matched_pairs st1"
      using merge_link_matched_pairs[of other merged st1] m2 by simp
    with s1 have "sorted_by_left_name h st2"
      by (simp add: sorted_by_left_name_def)
    with m1 m2 Inr show ?thesis
      by (cases r2) (auto simp: merge_def sorted_by_left_name_def)
  qed
qed

lemma sorted_remove_worst_charge_match:
  "sorted_by_left_name h st \<Longrightarrow> sorted_by_left_name h (snd (remove_worst_charge_match h st))"
proof -
  assume a: "sorted_by_left_name h st"
  have "\<And>p r st'. remove_node_pair p st = (r, st') \<Longrightarrow> sorted_by_left_name h st'"
    using sorted_remove_node_pair[OF a] by (metis snd_conv)
  then show ?thesis using a
    by (auto simp: remove_worst_charge_match_def sorted_by_left_name_def
             split: sum.splits list.splits prod.splits)
qed

lemma sorted_remove_attached_loop:
  "sorted_by_left_name h st \<Longrightarrow> sorted_by_left_name h (snd (remove_attached_loop h bs acc st))"
proof (induction h bs acc st rule: remove_attached_loop.induct)
  case (1 h removed_pairs st)
  then show ?case by simp
next
  case (2 h p bt rest removed_pairs st)
  then show ?case
    using sorted_remove_node_pair[of h st p]
    by (auto split: prod.splits sum.splits)
qed

lemma sorted_remove_attached_hydrogens:
  "sorted_by_left_name h st \<Longrightarrow> sorted_by_left_name h (snd (remove_attached_hydrogens h p st))"
  by (auto simp: remove_attached_hydrogens_def sorted_remove_attached_loop split: option.splits)

lemma sorted_charge_log_update [simp]:
  "sorted_by_left_name h (st\<lparr>removed_pairs_with_charge_difference := x\<rparr>) = sorted_by_left_name h st"
  by (simp add: sorted_by_left_name_def)

lemma sorted_rings_log_update [simp]:
  "sorted_by_left_name h (st\<lparr>removed_because_unmatched_rings := x\<rparr>) = sorted_by_left_name h st"
  by (simp add: sorted_by_left_name_def)

lemma sorted_refine_loop:
  "sorted_by_left_name h st \<Longrightarrow> sorted_by_left_name h (snd (refine_loop h atol rdh ps st))"
proof (induction h atol rdh ps st rule: refine_loop.induct)
  case (1 h atol remove_dangling_h st)
  then show ?case by simp
next
  case (2 h atol rdh node1 node2 rest st)
  show ?case
  proof (cases "eq (h node1) (h node2) atol")
    case True
    with 2 show ?thesis by simp
  next
    case False
    obtain r1 st1 where a1:
      "(if rdh then remove_attached_hydrogens h (node1, node2) st else (Inr [], st)) = (r1, st1)"
      by (cases "if rdh then remove_attached_hydrogens h (node1, node2) st else (Inr [], st)")
    have s1: "sorted_by_left_name h st1"
      using a1 "2.prems" sorted_remove_attached_hydrogens[of h st "(node1, node2)"]
      by (auto split: if_splits)
    obtain r2 st2 where a2: "remove_node_pair (node1, node2) st1 = (r2, st2)"
      by (cases "remove_node_pair (node1, node2) st1")
    have s2: "sorted_by_left_name h st2"
      using a2 s1 sorted_remove_node_pair[of h st1 "(node1, node2)"] by simp
    show ?thesis
    proof (cases r1)
      case (Inl e)
      with False a1 s1 show ?thesis by simp
    next
      case (Inr x1)
      note r1 = this
      show ?thesis
      proof (cases r2)
        case (Inl e)
        with False a1 a2 r1 s2 show ?thesis by simp
      next
        case (Inr x2)
        with False a1 a2 r1 s2 "2.IH"(2)[OF False a1[symmetric] r1 a2[symmetric] Inr]
        show ?thesis by simp
      qed
    qed
  qed
qed

lemma sorted_refine_against_charges:
  "sorted_by_left_name h st \<Longrightarrow> sorted_by_left_name h (snd (refine_against_charges h atol rdh st))"
  using sorted_refine_loop[of h st atol rdh "rev (matched_pairs st)"]
  by (auto simp: refine_against_charges_def Let_def split: prod.splits sum.splits)

lemma sorted_types_loop:
  "sorted_by_left_name h st \<Longrightarrow> sorted_by_left_name h (snd (types_loop h ps st))"
proof (induction h ps st rule: types_loop.induct)
  case (1 h st)
  then show ?case by simp
next
  case (2 h a1 a2 rest st)
  then show ?case
    using sorted_remove_node_pair[of h st "(a1, a2)"]
    by (auto split: prod.splits sum.splits)
qed

lemma sorted_remove_ring_atoms:
  "sorted_by_left_name h st \<Longrightarrow> sorted_by_left_name h (snd (remove_ring_atoms as acc st))"
proof (induction as acc st rule: remove_ring_atoms.induct)
  case (1 removed_pairs st)
  then show ?case by simp
next
  case (2 a rest removed_pairs st)
  have "\<And>p r st'. remove_node_pair p st = (r, st') \<Longrightarrow> sorted_by_left_name h st'"
    using sorted_remove_node_pair[OF "2.prems"] by (metis snd_conv)
  with 2 show ?case
    by (auto split: option.splits prod.splits sum.splits)
qed

lemma sorted_remove_unmatched_from:
  "sorted_by_left_name h st \<Longrightarrow>
     sorted_by_left_name h (snd (remove_unmatched_ring_atoms_from cs acc st))"
proof (induction cs acc st rule: remove_unmatched_ring_atoms_from.induct)
  case (1 removed_pairs st)
  then show ?case by simp
next
  case (2 c rest removed_pairs st)
  then show ?case
    using sorted_remove_ring_atoms[of h st "remdups c" removed_pairs]
    by (auto split: prod.splits sum.splits)
qed

lemma sorted_rings_loop:
  "sorted_by_left_name h st \<Longrightarrow> sorted_by_left_name h (snd (rings_loop lcs rcs correct st))"
proof (induction lcs rcs correct st rule: rings_loop.induct)
  case (1 lcs rcs correct st)
  obtain r1 st1 where a1: "remove_unmatched_ring_atoms lcs st = (r1, st1)"
    by (cases "remove_unmatched_ring_atoms lcs st")
  have s1: "sorted_by_left_name h st1"
    using a1 sorted_remove_unmatched_from[OF "1.prems", of lcs "[]"]
    by (simp add: remove_unmatched_ring_atoms_def)
  obtain r2 st2 where a2: "remove_unmatched_ring_atoms rcs st1 = (r2, st2)"
    by (cases "remove_unmatched_ring_atoms rcs st1")
  have s2: "sorted_by_left_name h st2"
    using a2 sorted_remove_unmatched_from[OF s1, of rcs "[]"]
    by (simp add: remove_unmatched_ring_atoms_def)
  show ?case
  proof (cases r1)
    case (Inl e)
    with a1 s1 show ?thesis by (subst rings_loop.simps) simp
  next
    case (Inr lrem)
    note r1 = this
    show ?thesis
    proof (cases r2)
      case (Inl e)
      with a1 a2 r1 s2 show ?thesis by (subst rings_loop.simps) simp
    next
      case (Inr rrem)
      show ?thesis
      proof (cases "length lrem = 0 \<and> length rrem = 0")
        case True
        with a1 a2 r1 Inr s2 show ?thesis by (subst rings_loop.simps) simp
      next
        case False
        obtain lcs' rcs' where rd: "readd_affected correct lrem rrem (lcs, rcs) = (lcs', rcs')"
          by (cases "readd_affected correct lrem rrem (lcs, rcs)")
        have "sorted_by_left_name h (snd (rings_loop lcs' rcs' correct st2))"
          using "1.IH"[OF a1[symmetric] r1 a2[symmetric] Inr False rd[symmetric] s2] .
        with a1 a2 r1 Inr False rd show ?thesis
          by (subst rings_loop.simps) auto
      qed
    qed
  qed
qed

lemma sorted_enforce_no_partial_rings:
  "sorted_by_left_name h st \<Longrightarrow>
     sorted_by_left_name h (snd (enforce_no_partial_rings lo ro li ri st))"
  by (auto simp: enforce_no_partial_rings_def Let_def sorted_rings_loop
           split: sum.splits)


lemma sorted_remove_component:
  "sorted_by_left_name h st \<Longrightarrow> sorted_by_left_name h (snd (remove_component cc st))"
proof (induction cc st rule: remove_component.induct)
  case (1 st)
  then show ?case by simp
next
  case (2 atom_tuple rest st)
  obtain r st1 where a: "remove_node_pair atom_tuple st = (r, st1)"
    by (cases "remove_node_pair atom_tuple st")
  have s1: "sorted_by_left_name h st1"
    using a sorted_remove_node_pair[OF "2.prems", of atom_tuple] by simp
  show ?case
  proof (cases r)
    case (Inl e)
    with a s1 show ?thesis by simp
  next
    case (Inr u)
    have "sorted_by_left_name h
            (st1\<lparr>removed_because_disjointed_cc := removed_because_disjointed_cc st1 @ [atom_tuple]\<rparr>)"
      using s1 by (simp add: sorted_by_left_name_def)
    from "2.IH"[OF a[symmetric] Inr this] a Inr show ?thesis by simp
  qed
qed

lemma sorted_remove_components:
  "sorted_by_left_name h st \<Longrightarrow> sorted_by_left_name h (snd (remove_components ccs st))"
proof (induction ccs st rule: remove_components.induct)
  case (1 st)
  then show ?case by simp
next
  case (2 cc rest st)
  obtain r st1 where a: "remove_component cc st = (r, st1)"
    by (cases "remove_component cc st")
  have s1: "sorted_by_left_name h st1"
    using a sorted_remove_component[OF "2.prems", of cc] by simp
  show ?case
  proof (cases r)
    case (Inl e)
    with a s1 show ?thesis by simp
  next
    case (Inr u)
    from "2.IH"[OF a[symmetric] Inr s1] a Inr show ?thesis by simp
  qed
qed

lemma sorted_largest_cc_survives:
  "sorted_by_left_name h st \<Longrightarrow> sorted_by_left_name h (snd (largest_cc_survives ev st))"
proof -
  assume a: "sorted_by_left_name h st"
  have "\<And>ccs r st'. remove_components ccs st = (r, st') \<Longrightarrow> sorted_by_left_name h st'"
    using sorted_remove_components[OF a] by (metis snd_conv)
  then show ?thesis using a
    by (auto simp: largest_cc_survives_def Let_def split: sum.splits list.splits prod.splits)
qed

lemma assign_atoms_ids_matched_pairs [simp]:
  "matched_pairs (snd (assign_atoms_ids id_start st)) = matched_pairs st"
  by (auto simp: assign_atoms_ids_def split: prod.splits option.splits)

text \<open>
  Claim C7.  \<open>matched_pairs\<close> is sorted in ascending order of the left atom's name in
  every reachable state of a topology: the constructor starts with the empty list,
  \<open>add_node_pair\<close> sorts after appending, removing a pair keeps the order, and so do the
  methods built on the two (\<open>merge\<close>, the filters, \<open>largest_cc_survives\<close>), also when they
  raise part-way; every other write leaves the list as it is.
\<close>

theorem matched_pairs_sorted:
  "reachable h st \<Longrightarrow> sorted (map (\<lambda>p. name (h (fst p))) (matched_pairs st))"
proof -
  assume "reachable h st"
  then have "sorted_by_left_name h st"
  proof (induction rule: reachable.induct)
    case (constructed h t1 t2 lc rc)
    then show ?case by (simp add: sorted_by_left_name_def SuperimposedTopology_def)
  next
    case (attribute_written h st st')
    then show ?case by (simp add: sorted_by_left_name_def)
  next
    case (atom_written h st h')
    from atom_written.hyps(2) have "\<And>a. name (h' a) = name (h a)" by (rule fun_cong)
    with atom_written.IH show ?case by (simp add: sorted_by_left_name_def)
  next
    case (after_link_pairs h st p ps)
    then show ?case by (simp add: sorted_by_left_name_def)
  next
    case (after_link_with_parent h st p q bt)
    then show ?case by (simp add: sorted_by_left_name_def)
  next
    case (after_matched_atom_types_are_the_same h st)
    then show ?case by (simp add: matched_atom_types_are_the_same_def sorted_types_loop)
  next
    case (after_assign_atoms_ids h st id_start)
    then show ?case by (simp add: sorted_by_left_name_def)
  qed (simp_all add: sorted_add_node_pair sorted_remove_node_pair sorted_merge
        sorted_remove_worst_charge_match sorted_remove_attached_hydrogens
        sorted_refine_against_charges sorted_enforce_no_partial_rings
        sorted_largest_cc_survives)
  then show ?thesis by (simp add: sorted_by_left_name_def)
qed


subsection \<open>The states of the search\<close>

lemma reachable_after:
  assumes "reachable h st" and "\<And>st. reachable h st \<Longrightarrow> reachable h (snd (f st))"
    and "f st = (r, st')"
  shows "reachable h st'"
  using assms(2)[OF assms(1)] assms(3) by simp

lemma link_existing_matched_pairs [simp]:
  "matched_pairs (snd (link_existing p ls st)) = matched_pairs st"
proof (induction p ls st rule: link_existing.induct)
  case (1 p st)
  then show ?case by simp
next
  case (2 p l rest st)
  show ?case
  proof (cases "contains_pair st (fst l)")
    case False
    with 2 show ?thesis by simp
  next
    case True
    obtain r st1 where a: "link_pairs p [l] st = (r, st1)" by (cases "link_pairs p [l] st")
    have m: "matched_pairs st1 = matched_pairs st"
      using link_pairs_matched_pairs[of p "[l]" st] a by simp
    show ?thesis
    proof (cases r)
      case (Inl e)
      with True a m show ?thesis by simp
    next
      case (Inr u)
      with True a m "2.IH"(1)[OF True a[symmetric] Inr] show ?thesis by simp
    qed
  qed
qed

lemma overlay_commit_reachable:
  assumes "reachable h st"
  shows "reachable h (snd (overlay_commit h n1 n2 parent_n1 parent_n2 bt st))"
proof -
  obtain r1 st1 where a1: "add_node_pair h (n1, n2) st = (r1, st1)"
    by (cases "add_node_pair h (n1, n2) st")
  have s1: "reachable h st1"
    using reachable.after_add_node_pair[OF assms, of "(n1, n2)"] a1 by simp
  show ?thesis
  proof (cases r1)
    case (Inl e)
    with a1 s1 show ?thesis by (simp add: overlay_commit_def)
  next
    case (Inr u)
    obtain r2 st2 where a2:
      "(case (parent_n1, parent_n2) of
          (None, None) \<Rightarrow> (Inr (), st1)
        | (Some p1, Some p2) \<Rightarrow> link_with_parent (n1, n2) (p1, p2) bt st1
        | _ \<Rightarrow> (Inl AssertionError, st1)) = (r2, st2)"
      by (cases "(case (parent_n1, parent_n2) of
          (None, None) \<Rightarrow> (Inr (), st1)
        | (Some p1, Some p2) \<Rightarrow> link_with_parent (n1, n2) (p1, p2) bt st1
        | _ \<Rightarrow> (Inl AssertionError, st1))")
    have "\<And>q. link_with_parent (n1, n2) q bt st1 = (r2, st2) \<Longrightarrow>
            matched_pairs st2 = matched_pairs st1"
      using link_with_parent_matched_pairs[of "(n1, n2)" _ bt st1] by (metis snd_conv)
    then have "matched_pairs st2 = matched_pairs st1"
      using a2 by (auto split: option.splits)
    then have s2: "reachable h st2" using s1 by (rule reachable.attribute_written[rotated])
    show ?thesis
    proof (cases r2)
      case (Inl e)
      with a1 a2 Inr s2 \<open>r1 = Inr u\<close> show ?thesis by (simp add: overlay_commit_def)
    next
      case (Inr v)
      have "reachable h (snd (link_existing (n1, n2) (bonded_pairs h n1 n2 parent_n1 parent_n2) st2))"
        using s2 by (rule reachable.attribute_written) simp
      with a1 a2 Inr \<open>r1 = Inr u\<close> show ?thesis by (simp add: overlay_commit_def)
    qed
  qed
qed

lemma dict_set_all:
  "list_all Q xs \<Longrightarrow> Q (k, v) \<Longrightarrow> list_all Q (dict_set k v xs)"
  by (induction k v xs rule: dict_set.induct) auto

lemma try_right_all:
  assumes "\<And>a b s st'. rec a b = Some (Inr (Some s), st') \<Longrightarrow> P s"
  shows "list_all (\<lambda>x. P (snd x)) acc \<Longrightarrow> try_right rec bs acc = Some (Inr sols) \<Longrightarrow>
         list_all (\<lambda>x. P (snd x)) sols"
proof (induction bs arbitrary: acc)
  case Nil
  then show ?case by simp
next
  case (Cons b bs)
  obtain n2 bt2 where b: "b = (n2, bt2)" by (cases b)
  show ?case
  proof (cases "rec n2 bt2")
    case None
    with Cons.prems b show ?thesis by simp
  next
    case (Some res)
    obtain r st' where res: "res = (r, st')" by (cases res)
    show ?thesis
    proof (cases r)
      case (Inl e)
      with Cons.prems b Some res show ?thesis by simp
    next
      case (Inr found)
      show ?thesis
      proof (cases found)
        case None
        with Cons b Some res Inr show ?thesis by simp
      next
        case (Some s)
        have "P s" using assms[of n2 bt2 s st'] \<open>rec n2 bt2 = Some res\<close> res Inr Some by simp
        then have "list_all (\<lambda>x. P (snd x)) (dict_set n2 s acc)"
          using Cons.prems(1) by (intro dict_set_all) simp_all
        from Cons.IH[OF this] Cons.prems(2) b \<open>rec n2 bt2 = Some res\<close> res Inr Some
        show ?thesis by simp
      qed
    qed
  qed
qed

lemma try_left_all:
  assumes "\<And>a b c d s st'. rec a b c d = Some (Inr (Some s), st') \<Longrightarrow> P s"
  shows "list_all (\<lambda>x. list_all (\<lambda>y. P (snd y)) (snd x)) acc \<Longrightarrow>
         try_left rec bs n2_bonds acc = Some (Inr res) \<Longrightarrow>
         list_all (\<lambda>x. list_all (\<lambda>y. P (snd y)) (snd x)) res"
proof (induction bs arbitrary: acc)
  case Nil
  then show ?case by simp
next
  case (Cons b bs)
  obtain n1 bt1 where b: "b = (n1, bt1)" by (cases b)
  show ?case
  proof (cases "try_right (rec n1 bt1) n2_bonds []")
    case None
    with Cons.prems b show ?thesis by simp
  next
    case (Some r)
    show ?thesis
    proof (cases r)
      case (Inl e)
      with Cons.prems b Some show ?thesis by simp
    next
      case (Inr sols)
      have s: "list_all (\<lambda>x. P (snd x)) sols"
        using try_right_all[of "rec n1 bt1" P "[]" n2_bonds sols] assms Some Inr by simp
      show ?thesis
      proof (cases "length sols > 0")
        case True
        have "list_all (\<lambda>x. list_all (\<lambda>y. P (snd y)) (snd x)) (dict_set n1 sols acc)"
          using Cons.prems(1) s by (intro dict_set_all) simp_all
        from Cons.IH[OF this] Cons.prems(2) b Some Inr True show ?thesis by simp
      next
        case False
        from Cons.IH[OF Cons.prems(1)] Cons.prems(2) b Some Inr False show ?thesis by simp
      qed
    qed
  qed
qed

lemma try_groups_right_all:
  assumes "\<And>a b c d s st'. rec a b c d = Some (Inr (Some s), st') \<Longrightarrow> P s"
  shows "list_all (list_all (\<lambda>x. list_all (\<lambda>y. P (snd y)) (snd x))) acc \<Longrightarrow>
         try_groups_right rec n1_type n1_bonds gs acc = Some (Inr res) \<Longrightarrow>
         list_all (list_all (\<lambda>x. list_all (\<lambda>y. P (snd y)) (snd x))) res"
proof (induction gs arbitrary: acc)
  case Nil
  then show ?case by simp
next
  case (Cons g gs)
  obtain n2_type n2_bonds where g: "g = (n2_type, n2_bonds)" by (cases g)
  show ?case
  proof (cases "n1_type \<noteq> n2_type")
    case True
    from Cons.IH[OF Cons.prems(1)] Cons.prems(2) g True show ?thesis by simp
  next
    case False
    show ?thesis
    proof (cases "try_left rec n1_bonds n2_bonds []")
      case None
      with Cons.prems g False show ?thesis by simp
    next
      case (Some r)
      show ?thesis
      proof (cases r)
        case (Inl e)
        with Cons.prems g False Some show ?thesis by simp
      next
        case (Inr ats)
        have s: "list_all (\<lambda>x. list_all (\<lambda>y. P (snd y)) (snd x)) ats"
          using try_left_all[of rec P "[]" n1_bonds n2_bonds ats] assms Some Inr by simp
        show ?thesis
        proof (cases "length ats \<noteq> 0")
          case True
          have "list_all (list_all (\<lambda>x. list_all (\<lambda>y. P (snd y)) (snd x))) (acc @ [ats])"
            using Cons.prems(1) s by simp
          from Cons.IH[OF this] Cons.prems(2) g False Some Inr True show ?thesis by simp
        next
          case F: False
          from Cons.IH[OF Cons.prems(1)] Cons.prems(2) g False Some Inr F show ?thesis by simp
        qed
      qed
    qed
  qed
qed

lemma try_groups_all:
  assumes "\<And>a b c d s st'. rec a b c d = Some (Inr (Some s), st') \<Longrightarrow> P s"
  shows "list_all (list_all (\<lambda>x. list_all (\<lambda>y. P (snd y)) (snd x))) acc \<Longrightarrow>
         try_groups rec gs n2_groups acc = Some (Inr res) \<Longrightarrow>
         list_all (list_all (\<lambda>x. list_all (\<lambda>y. P (snd y)) (snd x))) res"
proof (induction gs arbitrary: acc)
  case Nil
  then show ?case by simp
next
  case (Cons g gs)
  obtain n1_type n1_bonds where g: "g = (n1_type, n1_bonds)" by (cases g)
  show ?case
  proof (cases "try_groups_right rec n1_type n1_bonds n2_groups acc")
    case None
    with Cons.prems g show ?thesis by simp
  next
    case (Some r)
    show ?thesis
    proof (cases r)
      case (Inl e)
      with Cons.prems g Some show ?thesis by simp
    next
      case (Inr acc')
      have "list_all (list_all (\<lambda>x. list_all (\<lambda>y. P (snd y)) (snd x))) acc'"
        using try_groups_right_all[of rec P acc n1_type n1_bonds n2_groups acc'] assms
          Cons.prems(1) Some Inr by simp
      from Cons.IH[OF this] Cons.prems(2) g Some Inr show ?thesis by simp
    qed
  qed
qed

lemma candidates_all:
  "list_all (list_all (\<lambda>x. list_all (\<lambda>y. P (snd y)) (snd x))) combinations \<Longrightarrow>
     list_all P (candidates combinations)"
  by (fastforce simp: candidates_def list_all_iff)


lemma overlay_reachable:
  assumes rs: "\<And>combinations best. list_all (reachable h) (candidates combinations) \<Longrightarrow>
                 resolve combinations = Inr best \<Longrightarrow> reachable h best"
  shows "reachable h suptop \<Longrightarrow>
         overlay fuel resolve h n1 n2 parent_n1 parent_n2 bt suptop use_element_type = Some (r, st') \<Longrightarrow>
         reachable h st' \<and> (\<forall>s. r = Inr (Some s) \<longrightarrow> reachable h s)"
proof (induction fuel arbitrary: n1 n2 parent_n1 parent_n2 bt suptop r st')
  case 0
  then show ?case by simp
next
  case (Suc fuel)
  note ov = Suc.prems(2)
  show ?case
  proof (cases "overlay_guards h n1 n2 parent_n1 parent_n2 suptop use_element_type")
    case (Inl e)
    with ov Suc.prems(1) show ?thesis by auto
  next
    case (Inr dead)
    show ?thesis
    proof (cases dead)
      case True
      with ov Inr Suc.prems(1) show ?thesis by auto
    next
      case False
      obtain rc st where c: "overlay_commit h n1 n2 parent_n1 parent_n2 bt suptop = (rc, st)"
        by (cases "overlay_commit h n1 n2 parent_n1 parent_n2 bt suptop")
      have rst: "reachable h st"
        using overlay_commit_reachable[OF Suc.prems(1), of n1 n2 parent_n1 parent_n2 bt] c by simp
      show ?thesis
      proof (cases rc)
        case (Inl e)
        with ov Inr False c rst show ?thesis by auto
      next
        case cok: (Inr u)
        define rec where "rec = (\<lambda>n1bonded_node bond_type1 n2bonded_node bond_type2.
               overlay fuel resolve h n1bonded_node n2bonded_node (Some n1) (Some n2)
                 (Some bond_type1, Some bond_type2) st use_element_type)"
        define g1 where "g1 = groupby (\<lambda>bonded. element (h (fst bonded)))
               (sort_key (\<lambda>b. element (h (fst b)))
                  (filter (\<lambda>bond. Some (fst bond) \<noteq> parent_n1) (bonds (h n1))))"
        define g2 where "g2 = groupby (\<lambda>bonded. element (h (fst bonded)))
               (sort_key (\<lambda>b. element (h (fst b)))
                  (filter (\<lambda>bond. Some (fst bond) \<noteq> parent_n2) (bonds (h n2))))"
        have recP: "\<And>a b c d s st''. rec a b c d = Some (Inr (Some s), st'') \<Longrightarrow> reachable h s"
          unfolding rec_def using Suc.IH[OF rst] by blast
        have ov': "(case try_groups rec g1 g2 [] of
                     None \<Rightarrow> None
                   | Some (Inl e) \<Rightarrow> Some (Inl e, st)
                   | Some (Inr combinations) \<Rightarrow>
                       if length combinations = 0 then Some (Inr (Some st), st)
                       else (case resolve combinations of
                               Inl e \<Rightarrow> Some (Inl e, st)
                             | Inr best \<Rightarrow> Some (Inr (Some best), st))) = Some (r, st')"
          using ov Inr False c cok by (simp add: Let_def rec_def g1_def g2_def)
        show ?thesis
        proof (cases "try_groups rec g1 g2 []")
          case None
          with ov' show ?thesis by simp
        next
          case (Some tg)
          show ?thesis
          proof (cases tg)
            case (Inl e)
            with ov' Some rst show ?thesis by auto
          next
            case tgok: (Inr combinations)
            have call: "list_all (reachable h) (candidates combinations)"
              using try_groups_all[of rec "reachable h" "[]" g1 g2 combinations] recP Some tgok
              by (intro candidates_all) simp
            show ?thesis
            proof (cases "length combinations = 0")
              case True
              with ov' Some tgok rst show ?thesis by auto
            next
              case nonempty: False
              show ?thesis
              proof (cases "resolve combinations")
                case (Inl e)
                with ov' Some tgok nonempty rst show ?thesis by auto
              next
                case (Inr best)
                have "reachable h best" using rs[OF call Inr] .
                with ov' Some tgok nonempty Inr rst show ?thesis by auto
              qed
            qed
          qed
        qed
      qed
    qed
  qed
qed

lemma seed_topology_reachable: "reachable h (seed_topology ev opts top1_nodes top2_nodes)"
  unfolding seed_topology_def Let_def
  by (rule reachable.attribute_written[OF reachable.constructed]) simp

lemma seed_loop_reachable:
  assumes lc: "library_closed h ev"
  shows "list_all (reachable h) suptops \<Longrightarrow>
         seed_loop fuel ev opts h top1_nodes top2_nodes seeds suptops = Some (Inr found) \<Longrightarrow>
         list_all (reachable h) found"
proof (induction seeds arbitrary: suptops)
  case Nil
  then show ?case by simp
next
  case (Cons seed seeds)
  obtain node1 node2 where s: "seed = (node1, node2)" by (cases seed)
  from lc have rs: "\<And>combinations best. list_all (reachable h) (candidates combinations) \<Longrightarrow>
                 resolver ev combinations = Inr best \<Longrightarrow> reachable h best"
    and ac: "\<And>candidate suptops suptops'. reachable h candidate \<Longrightarrow>
                 list_all (reachable h) suptops \<Longrightarrow>
                 accept_candidate ev candidate suptops = Inr suptops' \<Longrightarrow>
                 list_all (reachable h) suptops'"
    unfolding library_closed_def by blast+
  show ?case
  proof (cases "overlay fuel (resolver ev) h node1 node2 None None (None, None)
             (seed_topology ev opts top1_nodes top2_nodes) (use_general_type_arg opts)")
    case None
    with Cons.prems s show ?thesis by simp
  next
    case (Some res)
    obtain r st' where res: "res = (r, st')" by (cases res)
    have ov: "overlay fuel (resolver ev) h node1 node2 None None (None, None)
             (seed_topology ev opts top1_nodes top2_nodes) (use_general_type_arg opts) = Some (r, st')"
      using Some res by simp
    have "reachable h st' \<and> (\<forall>c. r = Inr (Some c) \<longrightarrow> reachable h c)"
      by (rule overlay_reachable[OF _ seed_topology_reachable ov]) (blast intro: rs)
    then have P: "\<forall>c. r = Inr (Some c) \<longrightarrow> reachable h c" by blast
    show ?thesis
    proof (cases r)
      case (Inl e)
      with Cons.prems s Some res show ?thesis by simp
    next
      case (Inr found_opt)
      show ?thesis
      proof (cases found_opt)
        case None
        with Cons s Some res Inr show ?thesis by simp
      next
        case sc: (Some candidate_suptop)
        have rc: "reachable h candidate_suptop" using P Inr sc by simp
        show ?thesis
        proof (cases "len_st candidate_suptop = 0")
          case True
          with Cons s Some res Inr sc show ?thesis by simp
        next
          case False
          show ?thesis
          proof (cases "accept_candidate ev candidate_suptop suptops")
            case (Inl e)
            with Cons.prems s Some res Inr sc False show ?thesis by simp
          next
            case acc: (Inr suptops')
            have "list_all (reachable h) suptops'" using ac[OF rc Cons.prems(1) acc] .
            from Cons.IH[OF this] Cons.prems(2) s Some res Inr sc False acc
            show ?thesis by simp
          qed
        qed
      qed
    qed
  qed
qed

lemma and_thenE:
  assumes "and_then r f = Some (Inr y)"
  obtains x where "r = Some (Inr x)" "f x = Some (Inr y)"
  using assms by (auto simp: and_then_def split: option.splits sum.splits)

lemma found_suptops_reachable:
  assumes "library_closed h ev"
    and "found_suptops fuel ev opts h top1_nodes top2_nodes = Some (Inr found)"
  shows "list_all (reachable h) found"
proof -
  from assms(2) obtain suptops where
    p: "private_superimpose_topologies fuel ev opts h top1_nodes top2_nodes = Some (Inr suptops)"
    and f: "(if suptops = [] then Some (Inl no_superimposition) else Some (Inr suptops)) = Some (Inr found)"
    unfolding found_suptops_def by (elim and_thenE) blast
  from f have fs: "found = suptops" by (auto split: if_splits)
  from p obtain raw where
    sl: "seed_loop fuel ev opts h top1_nodes top2_nodes
           (chosen_seeds ev opts top1_nodes top2_nodes) [] = Some (Inr raw)"
    and su: "suptops = filter (\<lambda>suptop. \<not> all_hydrogens h suptop) raw"
    by (auto simp: private_superimpose_topologies_def Let_def split: option.splits sum.splits if_splits)
  have "list_all (reachable h) raw"
    using seed_loop_reachable[OF assms(1) _ sl] by simp
  with fs su show ?thesis by (simp add: list_all_iff)
qed


subsection \<open>The states of the orchestrator\<close>

lemma for_each_reachable:
  assumes "\<And>st. reachable h st \<Longrightarrow> reachable h (snd (f st))"
  shows "list_all (reachable h) sts \<Longrightarrow> for_each f sts = Inr res \<Longrightarrow> list_all (reachable h) res"
proof (induction sts arbitrary: res)
  case Nil
  then show ?case by simp
next
  case (Cons st sts)
  obtain r st' where a: "f st = (r, st')" by (cases "f st")
  have s: "reachable h st'" using assms[of st] Cons.prems(1) a by simp
  show ?case
  proof (cases r)
    case (Inl e)
    with Cons.prems a show ?thesis by simp
  next
    case (Inr u)
    show ?thesis
    proof (cases "for_each f sts")
      case (Inl e)
      with Cons.prems a Inr show ?thesis by simp
    next
      case rest: (Inr rest')
      have "list_all (reachable h) rest'" using Cons.IH[OF _ rest] Cons.prems(1) by simp
      with Cons.prems a Inr rest s show ?thesis by auto
    qed
  qed
qed

lemma cccd_loop_names:
  "cccd_loop ps corrected_pairs st h = Inr h' \<Longrightarrow> (\<lambda>a. name (h' a)) = (\<lambda>a. name (h a))"
proof (induction ps arbitrary: corrected_pairs h)
  case Nil
  then show ?case by simp
next
  case (Cons p rest)
  obtain A1 A2 where p: "p = (A1, A2)" by (cases p)
  show ?case
  proof (cases "\<not> is_cc_cd (atype (h A1)) (atype (h A2)) \<or> (A1, A2) \<in> set corrected_pairs")
    case True
    with Cons.prems p have "cccd_loop rest corrected_pairs st h = Inr h'" by auto
    then show ?thesis by (rule Cons.IH)
  next
    case False
    show ?thesis
    proof (cases "matched_pairs_bonds st (A1, A2)")
      case None
      with Cons.prems p False show ?thesis by simp
    next
      case (Some bs)
      show ?thesis
      proof (cases "filter (\<lambda>(b1, b2). is_cc_cd (atype (h b1)) (atype (h b2))) (map fst bs)")
        case Nil
        with Cons.prems p False Some show ?thesis by simp
      next
        case outer: (Cons b more)
        obtain b1 b2 where b: "b = (b1, b2)" by (cases b)
        show ?thesis
        proof (cases more)
          case (Cons c cs)
          with Cons.prems p False Some outer b show ?thesis by simp
        next
          case Nil
          show ?thesis
          proof (cases "atype (h A2) = atype (h A1) \<and> atype (h b2) = atype (h b1)")
            case True
            with Cons.prems p False Some outer b Nil
            have "cccd_loop rest corrected_pairs st h = Inr h'" by simp
            then show ?thesis by (rule Cons.IH)
          next
            case diff: False
            define h1 where "h1 = h(A2 := (h A2)\<lparr>atype := atype (h A1)\<rparr>)"
            define h2 where "h2 = h1(b2 := (h1 b2)\<lparr>atype := atype (h1 b1)\<rparr>)"
            have "cccd_loop rest (corrected_pairs @ [(A1, A2), (b1, b2)]) st h2 = Inr h'"
              using Cons.prems p False Some outer b Nil diff
              by (auto simp add: Let_def h1_def h2_def simp del: fun_upd_apply)
            then have "(\<lambda>a. name (h' a)) = (\<lambda>a. name (h2 a))" by (rule Cons.IH)
            moreover have "(\<lambda>a. name (h2 a)) = (\<lambda>a. name (h a))"
              by (auto simp: h1_def h2_def fun_eq_iff)
            ultimately show ?thesis by simp
          qed
        qed
      qed
    qed
  qed
qed

lemma match_cccd_all_names:
  "match_cccd_all h sts = Inr h' \<Longrightarrow> (\<lambda>a. name (h' a)) = (\<lambda>a. name (h a))"
proof (induction h sts rule: match_cccd_all.induct)
  case (1 h)
  then show ?case by simp
next
  case (2 h st rest)
  show ?case
  proof (cases "match_cccd_to_cdcc h st")
    case (Inl e)
    with "2.prems" show ?thesis by simp
  next
    case (Inr h1)
    have n1: "(\<lambda>a. name (h1 a)) = (\<lambda>a. name (h a))"
      using Inr cccd_loop_names[of "matched_pairs st" "[]" st h h1]
      by (simp add: match_cccd_to_cdcc_def)
    have "(\<lambda>a. name (h' a)) = (\<lambda>a. name (h1 a))"
      using "2.IH"[OF Inr] "2.prems" Inr by simp
    with n1 show ?thesis by simp
  qed
qed

lemma net_charge_loop_reachable:
  "reachable h st \<Longrightarrow> net_charge_loop h threshold st = Some (r, st') \<Longrightarrow> reachable h st'"
proof (induction "length (matched_pairs st)" arbitrary: st rule: less_induct)
  case less
  have e: "net_charge_loop h threshold st =
     (if \<bar>get_net_charge h st\<bar> > threshold then
        (case remove_worst_charge_match h st of
           (Inl e, st') \<Rightarrow> Some (Inl e, st')
         | (Inr largest_difference, st') \<Rightarrow>
             if largest_difference = 0
             then Some (Inl (Exception ''How can there be net charge but no pair can be found that actually is different?''), st')
             else if len_st st' = 0 then Some (Inr True, st')
             else net_charge_loop h threshold st')
      else Some (Inr False, st))"
    by (rule net_charge_loop.simps)
  show ?case
  proof (cases "\<bar>get_net_charge h st\<bar> > threshold")
    case False
    with less.prems e show ?thesis by simp
  next
    case True
    obtain rw st1 where rw: "remove_worst_charge_match h st = (rw, st1)"
      by (cases "remove_worst_charge_match h st")
    have r1: "reachable h st1"
      using reachable.after_remove_worst_charge_match[OF less.prems(1)] rw by simp
    show ?thesis
    proof (cases rw)
      case (Inl err)
      with less.prems(2) e True rw r1 show ?thesis by simp
    next
      case (Inr d)
      show ?thesis
      proof (cases "d = 0 \<or> len_st st1 = 0")
        case stop: True
        with less.prems(2) e True rw Inr r1 show ?thesis by (auto split: if_splits)
      next
        case False
        then have "length (matched_pairs st1) < length (matched_pairs st)"
          using remove_worst_charge_match_length[of h st d st1] rw Inr by simp
        moreover have "net_charge_loop h threshold st1 = Some (r, st')"
          using less.prems(2) e True rw Inr False by simp
        ultimately show ?thesis using less.hyps[OF _ r1] by blast
      qed
    qed
  qed
qed

lemma net_charge_filter_loop_reachable:
  "list_all (reachable h) sts \<Longrightarrow> list_all (reachable h) kept \<Longrightarrow>
     net_charge_filter_loop h threshold sts kept = Some (Inr res) \<Longrightarrow> list_all (reachable h) res"
proof (induction sts arbitrary: kept)
  case Nil
  then show ?case by simp
next
  case (Cons st sts)
  show ?case
  proof (cases "net_charge_loop h threshold st")
    case None
    with Cons.prems show ?thesis by simp
  next
    case (Some x)
    obtain r st' where x: "x = (r, st')" by (cases x)
    have s: "reachable h st'"
      using net_charge_loop_reachable[of h st threshold r st'] Cons.prems(1) Some x by simp
    show ?thesis
    proof (cases r)
      case (Inl e)
      with Cons.prems Some x show ?thesis by simp
    next
      case (Inr dropped)
      have "list_all (reachable h) (if dropped then kept else st' # kept)"
        using s Cons.prems(2) by simp
      from Cons.IH[OF _ this] Cons.prems(1,3) Some x Inr show ?thesis by simp
    qed
  qed
qed


lemma filter_cascade_reachable:
  assumes "list_all (reachable h) found"
    and "filter_cascade ev opts h top1_nodes top2_nodes found = Some (Inr (h1, res))"
  shows "(\<lambda>a. name (h1 a)) = (\<lambda>a. name (h a)) \<and> list_all (reachable h1) res"
proof -
  define suptops0 where "suptops0 =
    map (\<lambda>st. st\<lparr>ignore_bond_types := ignore_bond_types_arg opts,
                  top1 := Some top1_nodes, top2 := Some top2_nodes\<rparr>) found"
  have r0: "list_all (reachable h) suptops0"
    using assms(1) unfolding suptops0_def
    by (induction found) (auto intro: reachable.attribute_written)
  define pick where "pick = (\<lambda>suptops6 :: ST list.
     case suptops6 of
       st # st' # rest \<Rightarrow>
         (if length (filter (\<lambda>x. \<not> len_st x < fold max (map len_st (st' # rest)) (len_st st)) suptops6) > 1
          then take 1 (filter (\<lambda>x. \<not> len_st x < fold max (map len_st (st' # rest)) (len_st st)) suptops6)
          else filter (\<lambda>x. \<not> len_st x < fold max (map len_st (st' # rest)) (len_st st)) suptops6)
     | _ \<Rightarrow> suptops6)"
  have pick_subset: "set (pick xs) \<subseteq> set xs" for xs
    unfolding pick_def
    by (auto split: list.splits dest!: in_set_takeD)
  from assms(2) obtain hm suptops1 suptops2 suptops3 suptops4 where
    m: "match_cccd_all h suptops0 = Inr hm"
    and s1: "(if \<not> use_only_element opts
              then for_each (matched_atom_types_are_the_same hm) suptops0
              else Inr suptops0) = Inr suptops1"
    and s2: "(if use_charges opts \<and> \<not> ignore_charges_completely opts
              then for_each (refine_against_charges hm (pair_charge_atol opts) False) suptops1
              else Inr suptops1) = Inr suptops2"
    and s3: "(if net_charge_filter opts \<and> \<not> ignore_charges_completely opts
               then net_charge_filter_loop hm (net_charge_threshold opts) (rev suptops2) []
               else Some (Inr suptops2)) = Some (Inr suptops3)"
    and s4: "(if \<not> partial_rings_allowed opts
              then for_each (\<lambda>st. enforce_no_partial_rings
                       (fst (get_original_circles ev st)) (snd (get_original_circles ev st))
                       (fst (get_circles ev st)) (snd (get_circles ev st)) st) suptops3
              else Inr suptops3) = Inr suptops4"
    and fin: "(if \<not> disjoint_components opts then
       and_then (Some (for_each (largest_cc_survives ev) (filter (\<lambda>st. len_st st \<noteq> 0) suptops4)))
        (\<lambda>suptops6.
         if length (pick suptops6) = 1 then Some (Inr (hm, pick suptops6))
         else Some (Inl AssertionError))
     else Some (Inr (hm, filter (\<lambda>st. len_st st \<noteq> 0) suptops4))) = Some (Inr (h1, res))"
    unfolding filter_cascade_def Let_def suptops0_def[symmetric] pick_def
    by (elim and_thenE) (simp only: option.inject)
  have names: "(\<lambda>a. name (hm a)) = (\<lambda>a. name (h a))" using m by (rule match_cccd_all_names)
  have q0: "list_all (reachable hm) suptops0"
    using r0 names by (auto simp: list_all_iff intro: reachable.atom_written)
  have q1: "list_all (reachable hm) suptops1"
    using s1 q0 for_each_reachable[of hm "matched_atom_types_are_the_same hm" suptops0 suptops1]
    by (auto split: if_splits intro: reachable.after_matched_atom_types_are_the_same)
  have q2: "list_all (reachable hm) suptops2"
    using s2 q1 for_each_reachable[of hm "refine_against_charges hm (pair_charge_atol opts) False"
                 suptops1 suptops2]
    by (auto split: if_splits intro: reachable.after_refine_against_charges)
  have q3: "list_all (reachable hm) suptops3"
    using s3 q2 net_charge_filter_loop_reachable[of hm "rev suptops2" "[]"
                 "net_charge_threshold opts" suptops3]
    by (auto split: if_splits)
  have q4: "list_all (reachable hm) suptops4"
    using s4 q3 for_each_reachable[of hm "\<lambda>st. enforce_no_partial_rings
                       (fst (get_original_circles ev st)) (snd (get_original_circles ev st))
                       (fst (get_circles ev st)) (snd (get_circles ev st)) st" suptops3 suptops4]
    by (auto split: if_splits intro: reachable.after_enforce_no_partial_rings)
  have q5: "list_all (reachable hm) (filter (\<lambda>st. len_st st \<noteq> 0) suptops4)"
    using q4 by (simp add: list_all_iff)
  show ?thesis
  proof (cases "disjoint_components opts")
    case True
    with fin have "h1 = hm" "res = filter (\<lambda>st. len_st st \<noteq> 0) suptops4" by simp_all
    with names q5 show ?thesis by simp
  next
    case False
    with fin obtain suptops6 where
      s6: "for_each (largest_cc_survives ev) (filter (\<lambda>st. len_st st \<noteq> 0) suptops4) = Inr suptops6"
      and out: "h1 = hm" "res = pick suptops6"
      by (auto elim!: and_thenE split: if_splits)
    have "list_all (reachable hm) suptops6"
      using s6 q5 for_each_reachable[of hm "largest_cc_survives ev" _ suptops6]
      by (auto intro: reachable.after_largest_cc_survives)
    with out names pick_subset[of suptops6] show ?thesis by (auto simp: list_all_iff)
  qed
qed


lemma average_charges_names:
  "average_charges ps h l r = (h', l', r') \<Longrightarrow> (\<lambda>a. name (h' a)) = (\<lambda>a. name (h a))"
proof (induction ps arbitrary: h l r)
  case Nil
  then show ?case by simp
next
  case (Cons p ps)
  obtain left right where p: "p = (left, right)" by (cases p)
  show ?case
  proof (cases "charge (h left) \<noteq> charge (h right)")
    case False
    with Cons.prems p have "average_charges ps h l r = (h', l', r')" by simp
    then show ?thesis by (rule Cons.IH)
  next
    case True
    define avg where "avg = (charge (h left) + charge (h right)) / 2"
    define h1 where "h1 = h(left := (h left)\<lparr>charge := avg\<rparr>)"
    define h2 where "h2 = h1(right := (h1 right)\<lparr>charge := avg\<rparr>)"
    have "average_charges ps h2 (l + (charge (h left) - avg)) (r + (charge (h right) - avg))
            = (h', l', r')"
      using Cons.prems p True
      by (auto simp add: Let_def avg_def h1_def h2_def simp del: fun_upd_apply)
    then have "(\<lambda>a. name (h' a)) = (\<lambda>a. name (h2 a))" by (rule Cons.IH)
    moreover have "(\<lambda>a. name (h2 a)) = (\<lambda>a. name (h a))"
      by (auto simp: h1_def h2_def fun_eq_iff)
    ultimately show ?thesis by simp
  qed
qed

lemma add_charge_names:
  "(\<lambda>a. name (add_charge delta as h a)) = (\<lambda>a. name (h a))"
proof (induction as arbitrary: h)
  case Nil
  then show ?case by simp
next
  case (Cons b as)
  have "(\<lambda>a. name (add_charge delta as (h(b := (h b)\<lparr>charge := charge (h b) + delta\<rparr>)) a))
        = (\<lambda>a. name ((h(b := (h b)\<lparr>charge := charge (h b) + delta\<rparr>)) a))"
    by (rule Cons.IH)
  also have "\<dots> = (\<lambda>a. name (h a))" by (auto simp: fun_eq_iff)
  finally show ?case by simp
qed

lemma redistribute_charges_names:
  assumes "redistribute_charges h st = Inr h'"
  shows "(\<lambda>a. name (h' a)) = (\<lambda>a. name (h a))"
proof -
  obtain h1 l r where av: "average_charges (matched_pairs st) h 0 0 = (h1, l, r)"
    by (cases "average_charges (matched_pairs st) h 0 0")
  have n1: "(\<lambda>a. name (h1 a)) = (\<lambda>a. name (h a))" using av by (rule average_charges_names)
  from assms av obtain d1 as1 d2 as2 where "h' = add_charge d2 as2 (add_charge d1 as1 h1)"
    by (auto simp: redistribute_charges_def Let_def split: option.splits sum.splits)
  then have "(\<lambda>a. name (h' a)) = (\<lambda>a. name (h1 a))"
    using add_charge_names[of d2 as2 "add_charge d1 as1 h1"] add_charge_names[of d1 as1 h1]
    by simp
  with n1 show ?thesis by simp
qed

lemma assign_all_reachable:
  "list_all (reachable h) sts \<Longrightarrow> assign_all n sts = Inr res \<Longrightarrow> list_all (reachable h) res"
proof (induction sts arbitrary: n res)
  case Nil
  then show ?case by simp
next
  case (Cons st sts)
  obtain r st' where a: "assign_atoms_ids n st = (r, st')" by (cases "assign_atoms_ids n st")
  have s: "reachable h st'"
    using reachable.after_assign_atoms_ids[of h st n] Cons.prems(1) a by simp
  show ?case
  proof (cases r)
    case (Inl e)
    with Cons.prems a show ?thesis by simp
  next
    case (Inr next_id)
    show ?thesis
    proof (cases "assign_all (next_id + 1) sts")
      case (Inl e)
      with Cons.prems a Inr show ?thesis by simp
    next
      case rest: (Inr rest')
      have "list_all (reachable h) rest'" using Cons.IH[OF _ rest] Cons.prems(1) by simp
      with Cons.prems a Inr rest s show ?thesis by auto
    qed
  qed
qed

lemma finish_reachable:
  assumes "list_all (reachable h) sts" and "finish ev opts h sts = Some (Inr (h', res))"
  shows "h' = h \<and> list_all (reachable h) res"
proof -
  from assms(2) obtain suptops1 where
    a: "assign_all 1 sts = Inr suptops1" and o: "h' = h" "res = sort_key (rmsd ev) suptops1"
    unfolding finish_def
    by (auto elim!: and_thenE split: if_splits)
  have "list_all (reachable h) suptops1" using assign_all_reachable[OF assms(1) a] .
  with o show ?thesis by (simp add: list_all_iff)
qed

text \<open>Every topology that \<open>superimpose_topologies\<close> returns is in a reachable state.\<close>

lemma superimpose_topologies_reachable:
  assumes "library_closed h ev"
    and "superimpose_topologies fuel ev opts h top1_nodes top2_nodes = Some (Inr (h', res))"
  shows "(\<lambda>a. name (h' a)) = (\<lambda>a. name (h a)) \<and> list_all (reachable h') res"
proof -
  from assms(2) obtain found h1 suptops h2 where
    f: "found_suptops fuel ev opts h top1_nodes top2_nodes = Some (Inr found)"
    and c: "filter_cascade ev opts h top1_nodes top2_nodes found = Some (Inr (h1, suptops))"
    and r: "redistribution redistribute_charges opts h1 suptops = Inr h2"
    and e: "finish ev opts h2 suptops = Some (Inr (h', res))"
    unfolding superimpose_topologies_def superimpose_topologies_with_def filtered_def
    by (auto elim!: and_thenE)
  have "list_all (reachable h) found" using found_suptops_reachable[OF assms(1) f] .
  from filter_cascade_reachable[OF this c]
  have n1: "(\<lambda>a. name (h1 a)) = (\<lambda>a. name (h a))" and r1: "list_all (reachable h1) suptops"
    by simp_all
  have n2: "(\<lambda>a. name (h2 a)) = (\<lambda>a. name (h1 a))"
    using r redistribute_charges_names
    by (auto simp: redistribution_def split: if_splits list.splits)
  have r2: "list_all (reachable h2) suptops"
    using r1 n2 by (auto simp: list_all_iff intro: reachable.atom_written)
  from finish_reachable[OF r2 e] n1 n2 show ?thesis by simp
qed

lemma example_env_closed: "library_closed h example_env"
  unfolding library_closed_def
proof (intro conjI allI impI)
  fix combinations best
  assume a: "list_all (reachable h) (candidates combinations)"
    and r: "resolver example_env combinations = Inr best"
  from r have "best \<in> set (candidates combinations)"
    by (auto simp: example_env_def first_solution_def candidates_def
             split: list.splits prod.splits)
  with a show "reachable h best" by (simp add: list_all_iff)
next
  fix candidate suptops suptops'
  assume "reachable h candidate" "list_all (reachable h) suptops"
    and "accept_candidate example_env candidate suptops = Inr suptops'"
  then show "list_all (reachable h) suptops'" by (auto simp: example_env_def)
qed

text \<open>
  Two reachable states.  The first is the topology that \<open>superimpose_topologies\<close> returns
  for the chains \<open>C1-N1\<close> and \<open>C11-N11\<close> with the seed \<open>(C1, C11)\<close>.  The second is
  built by adding \<open>(N1, N11)\<close> and then \<open>(C1, C11)\<close>: there the sort in
  \<open>add_node_pair\<close> moves the appended pair to the front.
\<close>

theorem matched_pairs_sorted_witness:
  "(\<exists>h' st. superimpose_topologies 5 example_env seeded_options chain_atoms [0, 1] [2, 3]
              = Some (Inr (h', [st]))
     \<and> reachable h' st
     \<and> map (\<lambda>p. name (h' (fst p))) (matched_pairs st) = [''C1'', ''N1'']
     \<and> sorted (map (\<lambda>p. name (h' (fst p))) (matched_pairs st)))
   \<and> reachable chain_atoms
        (snd (add_node_pair chain_atoms (0, 2)
           (snd (add_node_pair chain_atoms (1, 3) (SuperimposedTopology None None None None)))))
   \<and> matched_pairs
        (snd (add_node_pair chain_atoms (0, 2)
           (snd (add_node_pair chain_atoms (1, 3) (SuperimposedTopology None None None None)))))
      = [(0, 2), (1, 3)]
   \<and> sorted (map (\<lambda>p. name (chain_atoms (fst p)))
        (matched_pairs (snd (add_node_pair chain_atoms (0, 2)
           (snd (add_node_pair chain_atoms (1, 3) (SuperimposedTopology None None None None)))))))"
proof -
  have "case superimpose_topologies 5 example_env seeded_options chain_atoms [0, 1] [2, 3] of
          Some (Inr (h1, [st])) \<Rightarrow> True | _ \<Rightarrow> False"
    by code_simp
  then obtain h' st where
    s: "superimpose_topologies 5 example_env seeded_options chain_atoms [0, 1] [2, 3]
          = Some (Inr (h', [st]))"
    by (rule sole_result)
  have "case superimpose_topologies 5 example_env seeded_options chain_atoms [0, 1] [2, 3] of
          Some (Inr (h1, [st])) \<Rightarrow> map (\<lambda>p. name (h1 (fst p))) (matched_pairs st) = [''C1'', ''N1'']
        | _ \<Rightarrow> False"
    by code_simp
  then have m: "map (\<lambda>p. name (h' (fst p))) (matched_pairs st) = [''C1'', ''N1'']"
    unfolding s by simp
  have r: "reachable h' st"
    using superimpose_topologies_reachable[OF example_env_closed s] by simp
  have first: "\<exists>h' st. superimpose_topologies 5 example_env seeded_options chain_atoms [0, 1] [2, 3]
              = Some (Inr (h', [st]))
     \<and> reachable h' st
     \<and> map (\<lambda>p. name (h' (fst p))) (matched_pairs st) = [''C1'', ''N1'']
     \<and> sorted (map (\<lambda>p. name (h' (fst p))) (matched_pairs st))"
    by (intro exI[of _ h'] exI[of _ st] conjI s r m matched_pairs_sorted[OF r])
  have r2: "reachable chain_atoms
     (snd (add_node_pair chain_atoms (0, 2)
        (snd (add_node_pair chain_atoms (1, 3) (SuperimposedTopology None None None None)))))"
    by (intro reachable.after_add_node_pair reachable.constructed)
  have m2: "matched_pairs
        (snd (add_node_pair chain_atoms (0, 2)
           (snd (add_node_pair chain_atoms (1, 3) (SuperimposedTopology None None None None)))))
      = [(0, 2), (1, 3)]"
    by code_simp
  show ?thesis
    by (intro conjI first r2 m2 matched_pairs_sorted[OF r2])
qed

end
